theory Spec2Isabelle
  imports Complex_Main "HOL-Library.Sublist"
begin

section \<open>Floating-point values\<close>

text \<open>
  The notebook \<^verbatim>\<open>yolov8/yolov8.ipynb\<close> decodes the raw output of a YOLOv8 network with
  PyTorch tensor operations on 32-bit floating-point numbers (\<^verbatim>\<open>torch.float\<close>). A tensor
  entry is a finite number, one of the two infinities, or NaN. An arithmetic operation on
  finite numbers computes the real result and rounds it to the nearest number of the
  32-bit format (binary32 of IEEE 754: 24 significant bits, exponents from \<open>-126\<close> to 127,
  subnormal numbers below), a tie going to the even significand; a result that rounds to
  \<open>2 ^ 128\<close> or beyond is an infinity. The two signed zeros are one value here.
\<close>

datatype fval = Fin real | PInf | NInf | NaN

definition round_even :: "real \<Rightarrow> int" where
  "round_even q =
     (let f = \<lfloor>q\<rfloor>; r = q - of_int f
      in if r < 1 / 2 then f else if 1 / 2 < r then f + 1 else if even f then f else f + 1)"

definition binade :: "real \<Rightarrow> int" where
  "binade x = max (- 126) \<lfloor>log 2 \<bar>x\<bar>\<rfloor>"

definition ulp32 :: "real \<Rightarrow> real" where
  "ulp32 x = 2 powi (binade x - 23)"

definition round32 :: "real \<Rightarrow> fval" where
  "round32 x =
     (if x = 0 then Fin 0
      else let r = of_int (round_even (x / ulp32 x)) * ulp32 x
           in if 2 ^ 128 \<le> \<bar>r\<bar> then (if 0 < x then PInf else NInf) else Fin r)"

fun is_fin :: "fval \<Rightarrow> bool" where
  "is_fin (Fin a) = True"
| "is_fin _ = False"

fun fneg :: "fval \<Rightarrow> fval" where
  "fneg (Fin a) = Fin (- a)"
| "fneg PInf = NInf"
| "fneg NInf = PInf"
| "fneg NaN = NaN"

fun fadd :: "fval \<Rightarrow> fval \<Rightarrow> fval" where
  "fadd (Fin a) (Fin b) = round32 (a + b)"
| "fadd NaN v = NaN"
| "fadd u NaN = NaN"
| "fadd PInf NInf = NaN"
| "fadd NInf PInf = NaN"
| "fadd PInf v = PInf"
| "fadd u PInf = PInf"
| "fadd NInf v = NInf"
| "fadd u NInf = NInf"

definition fsub :: "fval \<Rightarrow> fval \<Rightarrow> fval" where
  "fsub u v = fadd u (fneg v)"

definition inf_of_sign :: "real \<Rightarrow> fval" where
  "inf_of_sign a = (if a = 0 then NaN else if 0 < a then PInf else NInf)"

fun fmul :: "fval \<Rightarrow> fval \<Rightarrow> fval" where
  "fmul (Fin a) (Fin b) = round32 (a * b)"
| "fmul NaN v = NaN"
| "fmul u NaN = NaN"
| "fmul (Fin a) PInf = inf_of_sign a"
| "fmul (Fin a) NInf = inf_of_sign (- a)"
| "fmul PInf (Fin b) = inf_of_sign b"
| "fmul NInf (Fin b) = inf_of_sign (- b)"
| "fmul PInf PInf = PInf"
| "fmul NInf NInf = PInf"
| "fmul PInf NInf = NInf"
| "fmul NInf PInf = NInf"

text \<open>Division by a zero divisor takes the divisor as positive zero.\<close>

fun fdiv :: "fval \<Rightarrow> fval \<Rightarrow> fval" where
  "fdiv (Fin a) (Fin b) = (if b = 0 then inf_of_sign a else round32 (a / b))"
| "fdiv NaN v = NaN"
| "fdiv u NaN = NaN"
| "fdiv (Fin a) PInf = Fin 0"
| "fdiv (Fin a) NInf = Fin 0"
| "fdiv PInf (Fin b) = (if 0 \<le> b then PInf else NInf)"
| "fdiv NInf (Fin b) = (if 0 \<le> b then NInf else PInf)"
| "fdiv u v = NaN"

text \<open>
  The exponential is taken as correctly rounded: the nearest 32-bit number to the real
  exponential, zero when that underflows and infinity when it overflows.
\<close>

fun fexp :: "fval \<Rightarrow> fval" where
  "fexp (Fin a) = round32 (exp a)"
| "fexp PInf = PInf"
| "fexp NInf = Fin 0"
| "fexp NaN = NaN"

text \<open>The maximum of two entries is NaN when one of them is.\<close>

fun fmax :: "fval \<Rightarrow> fval \<Rightarrow> fval" where
  "fmax (Fin a) (Fin b) = Fin (max a b)"
| "fmax NaN v = NaN"
| "fmax u NaN = NaN"
| "fmax PInf v = PInf"
| "fmax u PInf = PInf"
| "fmax NInf v = v"
| "fmax u NInf = u"

text \<open>A sum accumulates from the left, starting at zero; a maximum starts at \<open>-\<infinity>\<close>.\<close>

definition fsum :: "fval list \<Rightarrow> fval" where
  "fsum vs = foldl fadd (Fin 0) vs"

definition fmaximum :: "fval list \<Rightarrow> fval" where
  "fmaximum vs = foldl fmax NInf vs"

text \<open>\<^verbatim>\<open>torch.sigmoid\<close>: the logistic function \<open>1 / (1 + exp (- v))\<close>.\<close>

definition sigmoid :: "fval \<Rightarrow> fval" where
  "sigmoid v = fdiv (Fin 1) (fadd (Fin 1) (fexp (fneg v)))"

section \<open>Storages and tensors\<close>

text \<open>
  PyTorch keeps the entries of tensors in storages, and a tensor is a view of one storage:
  the storage it reads and writes, the offset of its first entry, its shape, and for each
  dimension the stride, the distance in the storage between neighbours along that
  dimension. Several tensors can view the same storage (\<^verbatim>\<open>view\<close>, \<^verbatim>\<open>transpose\<close>, \<^verbatim>\<open>split\<close>
  and \<^verbatim>\<open>unsqueeze\<close> return such views), so that a write through one of them is seen
  through the others. The store is the list of all storages; a storage is named by its
  position in the list, and a new storage is added at the end.
\<close>

type_synonym store = "fval list list"

record tensor =
  storage :: nat
  offset :: nat
  shape :: "nat list"
  strides :: "nat list"

definition numel :: "tensor \<Rightarrow> nat" where
  "numel t = prod_list (shape t)"

fun indices :: "nat list \<Rightarrow> nat list list" where
  "indices [] = [Nil]"
| "indices (d # ds) = concat (map (\<lambda>i. map ((#) i) (indices ds)) [0..<d])"

fun flat_index :: "nat list \<Rightarrow> nat list \<Rightarrow> nat" where
  "flat_index (d # ds) (i # is) = i * prod_list ds + flat_index ds is"
| "flat_index ds is = 0"

definition valid_index :: "nat list \<Rightarrow> nat list \<Rightarrow> bool" where
  "valid_index sh idx = list_all2 (<) idx sh"

definition address :: "tensor \<Rightarrow> nat list \<Rightarrow> nat" where
  "address t idx = offset t + sum_list (map2 (*) idx (strides t))"

definition tget :: "store \<Rightarrow> tensor \<Rightarrow> nat list \<Rightarrow> fval" where
  "tget s t idx = s ! storage t ! address t idx"

text \<open>
  A tensor is valid in a store when its storage exists, it has one stride for each
  dimension, and every index within its shape addresses an entry of the storage.
\<close>

definition valid :: "store \<Rightarrow> tensor \<Rightarrow> bool" where
  "valid s t = (storage t < length s \<and> length (strides t) = length (shape t)
      \<and> list_all (\<lambda>idx. address t idx < length (s ! storage t)) (indices (shape t)))"

text \<open>
  The strides of a tensor that PyTorch has just allocated: the entries lie in row-major
  order, and a dimension of size 0 counts as size 1.
\<close>

fun contiguous :: "nat list \<Rightarrow> nat list" where
  "contiguous [] = []"
| "contiguous [d] = [1]"
| "contiguous (d # e # ds) = (max e 1 * hd (contiguous (e # ds))) # contiguous (e # ds)"

section \<open>Errors and effects\<close>

text \<open>
  The exceptions the Python code can raise: a failed tuple unpacking is a \<^verbatim>\<open>ValueError\<close>,
  an index out of range an \<^verbatim>\<open>IndexError\<close>, a tensor operation on shapes that do not fit a
  \<^verbatim>\<open>RuntimeError\<close>, and \<^verbatim>\<open>np.load\<close> on a missing file a \<^verbatim>\<open>FileNotFoundError\<close>.
\<close>

datatype error = ValueError | IndexError | RuntimeError | FileNotFoundError

definition ebind :: "error + 'a \<Rightarrow> ('a \<Rightarrow> error + 'b) \<Rightarrow> error + 'b" where
  "ebind m f = (case m of Inl e \<Rightarrow> Inl e | Inr v \<Rightarrow> f v)"

text \<open>
  A computation that allocates or writes takes the store and returns its result, or the
  exception it raised, with the store it leaves behind.
\<close>

type_synonym 'a run = "store \<Rightarrow> (error + 'a) \<times> store"

definition lift :: "error + 'a \<Rightarrow> 'a run" where
  "lift r s = (r, s)"

definition sbind :: "'a run \<Rightarrow> ('a \<Rightarrow> 'b run) \<Rightarrow> 'b run" where
  "sbind m f s = (case m s of (Inl e, s') \<Rightarrow> (Inl e, s') | (Inr v, s') \<Rightarrow> f v s')"

text \<open>
  A new tensor of a given shape: a new storage at the end of the store, filled in row-major
  order with the entries \<open>f s idx\<close> computed from the store before the allocation.
\<close>

definition fresh :: "nat \<Rightarrow> nat list \<Rightarrow> tensor" where
  "fresh n sh = \<lparr>storage = n, offset = 0, shape = sh, strides = contiguous sh\<rparr>"

definition new_tensor :: "nat list \<Rightarrow> (store \<Rightarrow> nat list \<Rightarrow> fval) \<Rightarrow> tensor run" where
  "new_tensor sh f s = (Inr (fresh (length s) sh), s @ [map (f s) (indices sh)])"

section \<open>Tensor operations of PyTorch\<close>

text \<open>
  Each operation the notebook calls, with the check PyTorch makes before it computes.
  A dimension argument is an integer; a negative one counts from the last dimension.
\<close>

definition norm_dim :: "nat \<Rightarrow> int \<Rightarrow> error + nat" where
  "norm_dim rank d =
     (if - int rank \<le> d \<and> d < int rank
      then Inr (nat (if d < 0 then d + int rank else d))
      else Inl IndexError)"

text \<open>
  \<^verbatim>\<open>t.view(sizes)\<close> returns a tensor of a new shape on the same storage. One size may be
  \<open>-1\<close>: it is inferred from the others, which must then have a positive product that
  divides the number of entries; otherwise the product of the sizes must be the number of
  entries.
\<close>

definition infer_size :: "int list \<Rightarrow> nat \<Rightarrow> error + nat list" where
  "infer_size sz n =
     (let known = prod_list (map nat (filter (\<lambda>d. d \<noteq> - 1) sz))
      in if (\<exists>d \<in> set sz. d < - 1) \<or> 1 < length (filter (\<lambda>d. d = - 1) sz)
         then Inl RuntimeError
         else if - 1 \<in> set sz
         then (if 0 < known \<and> n mod known = 0
               then Inr (map (\<lambda>d. if d = - 1 then n div known else nat d) sz)
               else Inl RuntimeError)
         else if known = n then Inr (map nat sz) else Inl RuntimeError)"

text \<open>
  The new strides are computed from the old ones, and the view is refused when the layout
  of the tensor in its storage does not allow the new shape without a copy. PyTorch walks
  the old dimensions from the last to the first and collects them into chunks, a chunk
  ending before a dimension of size other than 1 whose stride is not the extent of the
  chunk so far; at the end of each chunk it takes dimensions of the new shape, from the
  last, until their product reaches the number of entries of the chunk (a new dimension of
  size 1 is always taken), and refuses when the two numbers differ. \<open>take_view\<close> is the
  inner loop: the number of entries \<open>tn\<close> of the chunk, its base stride, the product \<open>vn\<close>
  of the new sizes taken so far, the new sizes left (last first) and the new strides found.
\<close>

fun take_view :: "nat \<Rightarrow> nat \<Rightarrow> nat \<Rightarrow> nat list \<Rightarrow> nat list \<Rightarrow> nat \<times> nat list \<times> nat list" where
  "take_view tn base vn [] acc = (vn, [], acc)"
| "take_view tn base vn (d # ds) acc =
     (if vn < tn \<or> d = 1 then take_view tn base (vn * d) ds ((vn * base) # acc)
      else (vn, d # ds, acc))"

fun chunks :: "(nat \<times> nat) list \<Rightarrow> nat \<Rightarrow> nat \<Rightarrow> nat list \<Rightarrow> nat list \<Rightarrow> nat list option" where
  "chunks [] tn base rv acc = (if rv = [] then Some acc else None)"
| "chunks [(sz, st)] tn base rv acc =
     (case take_view (tn * sz) base 1 rv acc of
        (vn, rv', acc') \<Rightarrow> if vn = tn * sz \<and> rv' = [] then Some acc' else None)"
| "chunks ((sz, st) # (sz', st') # rest) tn base rv acc =
     (if sz' \<noteq> 1 \<and> st' \<noteq> tn * sz * base
      then (case take_view (tn * sz) base 1 rv acc of
              (vn, rv', acc') \<Rightarrow>
                if vn = tn * sz then chunks ((sz', st') # rest) 1 st' rv' acc' else None)
      else chunks ((sz', st') # rest) (tn * sz) base rv acc)"

definition compute_stride :: "nat list \<Rightarrow> nat list \<Rightarrow> nat list \<Rightarrow> nat list option" where
  "compute_stride oldshape oldstride newshape =
     (if oldshape = [] then Some (replicate (length newshape) 1)
      else if prod_list oldshape = 0
      then Some (if oldshape = newshape then oldstride else contiguous newshape)
      else chunks (rev (zip oldshape oldstride)) 1 (last oldstride) (rev newshape) [])"

definition torch_view :: "tensor \<Rightarrow> int list \<Rightarrow> error + tensor" where
  "torch_view t sz =
     ebind (infer_size sz (numel t)) (\<lambda>sh.
     case compute_stride (shape t) (strides t) sh of
       None \<Rightarrow> Inl RuntimeError
     | Some st \<Rightarrow> Inr (t\<lparr>shape := sh, strides := st\<rparr>))"

text \<open>\<^verbatim>\<open>t.transpose(d0, d1)\<close> exchanges two dimensions, sizes and strides.\<close>

definition list_swap :: "'a list \<Rightarrow> nat \<Rightarrow> nat \<Rightarrow> 'a list" where
  "list_swap xs m n = xs[m := xs ! n, n := xs ! m]"

definition torch_transpose :: "tensor \<Rightarrow> int \<Rightarrow> int \<Rightarrow> error + tensor" where
  "torch_transpose t d0 d1 =
     ebind (norm_dim (length (shape t)) d0) (\<lambda>m.
     ebind (norm_dim (length (shape t)) d1) (\<lambda>n.
     Inr (t\<lparr>shape := list_swap (shape t) m n, strides := list_swap (strides t) m n\<rparr>)))"

text \<open>
  \<^verbatim>\<open>t.unsqueeze(d)\<close> inserts a dimension of size 1 at position \<open>d\<close>; its stride is the
  extent of the dimension that follows it, or 1 at the end.
\<close>

definition torch_unsqueeze :: "tensor \<Rightarrow> nat \<Rightarrow> error + tensor" where
  "torch_unsqueeze t d =
     (if d \<le> length (shape t)
      then Inr (t\<lparr>shape := take d (shape t) @ [1] @ drop d (shape t),
                  strides := take d (strides t)
                    @ [if d < length (shape t) then shape t ! d * strides t ! d else 1]
                    @ drop d (strides t)\<rparr>)
      else Inl IndexError)"

text \<open>The part of \<open>t\<close> that starts at \<open>start\<close> along dimension \<open>m\<close> and has size \<open>len\<close> there.\<close>

definition narrow :: "tensor \<Rightarrow> nat \<Rightarrow> nat \<Rightarrow> nat \<Rightarrow> tensor" where
  "narrow t m start len =
     t\<lparr>offset := offset t + start * strides t ! m, shape := (shape t)[m := len]\<rparr>"

text \<open>
  \<^verbatim>\<open>torch.split(t, n, dim)\<close> cuts \<open>dim\<close> into chunks of size \<open>n\<close> (the last one may be
  smaller); \<^verbatim>\<open>t.split((n1, n2, ...), dim)\<close> cuts it into chunks of the given sizes, which
  must add up to the size of \<open>dim\<close>. The chunks are views of \<open>t\<close>.
\<close>

definition torch_split :: "tensor \<Rightarrow> nat \<Rightarrow> int \<Rightarrow> error + tensor list" where
  "torch_split t n d =
     ebind (norm_dim (length (shape t)) d) (\<lambda>m.
     let sz = shape t ! m in
     if n = 0 \<and> sz \<noteq> 0 then Inl RuntimeError
     else Inr (map (\<lambda>k. narrow t m (k * n) (min n (sz - k * n)))
                   [0..<max 1 ((sz + n - 1) div n)]))"

fun split_at :: "tensor \<Rightarrow> nat \<Rightarrow> nat \<Rightarrow> nat list \<Rightarrow> tensor list" where
  "split_at t m off [] = []"
| "split_at t m off (n # ns) = narrow t m off n # split_at t m (off + n) ns"

definition torch_split_sizes :: "tensor \<Rightarrow> nat list \<Rightarrow> int \<Rightarrow> error + tensor list" where
  "torch_split_sizes t ns d =
     ebind (norm_dim (length (shape t)) d) (\<lambda>m.
     if sum_list ns = shape t ! m then Inr (split_at t m 0 ns) else Inl RuntimeError)"

text \<open>
  The operations that follow compute a new tensor from the entries of their arguments,
  which they read through the strides of the arguments.

  \<^verbatim>\<open>t.softmax(dim)\<close>: along \<open>dim\<close>, PyTorch subtracts the maximum from each entry,
  exponentiates, and divides by the sum of the exponentials.
\<close>

definition torch_softmax :: "tensor \<Rightarrow> int \<Rightarrow> tensor run" where
  "torch_softmax t d =
     sbind (lift (norm_dim (length (shape t)) d)) (\<lambda>m.
     new_tensor (shape t) (\<lambda>s idx.
       let lane = map (\<lambda>k. tget s t (idx[m := k])) [0..<shape t ! m];
           mx = fmaximum lane
       in fdiv (fexp (fsub (tget s t idx) mx)) (fsum (map (\<lambda>u. fexp (fsub u mx)) lane))))"

text \<open>
  \<^verbatim>\<open>nn.Conv2d(c1, 1, 1, bias=False)\<close> applied to a batched input: a convolution whose
  kernel is one cell, that is, for each output channel the sum over the input channels of
  weight times entry. Only the kernel size \<open>DFL\<close> builds is modelled. PyTorch refuses an
  input whose height or width is smaller than the kernel.
\<close>

definition conv2d :: "tensor \<Rightarrow> tensor \<Rightarrow> tensor run" where
  "conv2d w x =
     (case shape w of
        [co, ci, kh, kw] \<Rightarrow>
          (case shape x of
             [n, c, h, wd] \<Rightarrow>
               if kh = 1 \<and> kw = 1 \<and> c = ci \<and> kh \<le> h \<and> kw \<le> wd
               then new_tensor [n, co, h, wd] (\<lambda>s idx.
                      fsum (map (\<lambda>k. fmul (tget s w [idx ! 1, k, 0, 0])
                                          (tget s x [idx ! 0, k, idx ! 2, idx ! 3]))
                                [0..<ci]))
               else lift (Inl RuntimeError)
           | _ \<Rightarrow> lift (Inl RuntimeError))
      | _ \<Rightarrow> lift (Inl RuntimeError))"

text \<open>
  Broadcasting: shapes are aligned at their last dimension, a missing dimension counts as
  size 1, and two sizes fit when they are equal or one of them is 1.
\<close>

definition pad_shape :: "nat \<Rightarrow> nat list \<Rightarrow> nat list" where
  "pad_shape n sh = replicate (n - length sh) 1 @ sh"

fun bdims :: "nat list \<Rightarrow> nat list \<Rightarrow> error + nat list" where
  "bdims [] [] = Inr []"
| "bdims (a # as) (b # bs) =
     (if a = b \<or> b = 1 then ebind (bdims as bs) (\<lambda>r. Inr (a # r))
      else if a = 1 then ebind (bdims as bs) (\<lambda>r. Inr (b # r))
      else Inl RuntimeError)"
| "bdims as bs = Inl RuntimeError"

definition broadcast_shapes :: "nat list \<Rightarrow> nat list \<Rightarrow> error + nat list" where
  "broadcast_shapes s1 s2 =
     (let n = max (length s1) (length s2) in bdims (pad_shape n s1) (pad_shape n s2))"

definition bindex :: "nat list \<Rightarrow> nat list \<Rightarrow> nat list" where
  "bindex sh idx =
     map2 (\<lambda>d i. if d = 1 then 0 else i) sh (drop (length idx - length sh) idx)"

definition tbinop :: "(fval \<Rightarrow> fval \<Rightarrow> fval) \<Rightarrow> tensor \<Rightarrow> tensor \<Rightarrow> tensor run" where
  "tbinop f a b =
     sbind (lift (broadcast_shapes (shape a) (shape b))) (\<lambda>sh.
     new_tensor sh (\<lambda>s idx. f (tget s a (bindex (shape a) idx))
                              (tget s b (bindex (shape b) idx))))"

definition tensor_add :: "tensor \<Rightarrow> tensor \<Rightarrow> tensor run" where
  "tensor_add = tbinop fadd"

definition tensor_sub :: "tensor \<Rightarrow> tensor \<Rightarrow> tensor run" where
  "tensor_sub = tbinop fsub"

definition tensor_mul :: "tensor \<Rightarrow> tensor \<Rightarrow> tensor run" where
  "tensor_mul = tbinop fmul"

definition tensor_div_scalar :: "tensor \<Rightarrow> fval \<Rightarrow> tensor run" where
  "tensor_div_scalar t c = new_tensor (shape t) (\<lambda>s idx. fdiv (tget s t idx) c)"

definition torch_sigmoid :: "tensor \<Rightarrow> tensor run" where
  "torch_sigmoid t = new_tensor (shape t) (\<lambda>s idx. sigmoid (tget s t idx))"

text \<open>
  \<^verbatim>\<open>torch.cat(ts, dim)\<close>: the list must not be empty, and the tensors must have the same
  shape except in \<open>dim\<close>.
\<close>

fun cat_entry :: "store \<Rightarrow> tensor list \<Rightarrow> nat \<Rightarrow> nat list \<Rightarrow> fval" where
  "cat_entry s [] m idx = Fin 0"
| "cat_entry s (t # ts) m idx =
     (if idx ! m < shape t ! m then tget s t idx
      else cat_entry s ts m (idx[m := idx ! m - shape t ! m]))"

definition torch_cat :: "tensor list \<Rightarrow> int \<Rightarrow> tensor run" where
  "torch_cat ts d =
     (case ts of
        [] \<Rightarrow> lift (Inl RuntimeError)
      | t # _ \<Rightarrow>
          sbind (lift (norm_dim (length (shape t)) d)) (\<lambda>m.
          if \<forall>u \<in> set ts. length (shape u) = length (shape t)
                \<and> (shape u)[m := 0] = (shape t)[m := 0]
          then new_tensor ((shape t)[m := sum_list (map (\<lambda>u. shape u ! m) ts)])
                          (\<lambda>s. cat_entry s ts m)
          else lift (Inl RuntimeError)))"

definition torch_arange :: "nat \<Rightarrow> tensor run" where
  "torch_arange n = new_tensor [n] (\<lambda>s idx. Fin (real (idx ! 0)))"

text \<open>
  \<^verbatim>\<open>dst[:] = src\<close> writes into the storage of \<open>dst\<close>: every entry of \<open>dst\<close> is overwritten in
  place, \<open>src\<close> broadcast to its shape. This is the one operation of the notebook's
  functions that changes an existing storage.
\<close>

definition assign_all :: "tensor \<Rightarrow> tensor \<Rightarrow> unit run" where
  "assign_all dst src s =
     (if broadcast_shapes (shape dst) (shape src) = Inr (shape dst)
      then (Inr (),
            s[storage dst :=
                foldl (\<lambda>buf idx. buf[address dst idx := tget s src (bindex (shape src) idx)])
                  (s ! storage dst) (indices (shape dst))])
      else (Inl RuntimeError, s))"

text \<open>
  A NumPy array read from a file is a shape with its entries in row-major order;
  \<^verbatim>\<open>torch.tensor\<close> copies it into a new tensor.
\<close>

record array =
  dims :: "nat list"
  elems :: "fval list"

definition wf :: "array \<Rightarrow> bool" where
  "wf a = (length (elems a) = prod_list (dims a))"

definition aget :: "array \<Rightarrow> nat list \<Rightarrow> fval" where
  "aget a idx = elems a ! flat_index (dims a) idx"

definition torch_tensor :: "array \<Rightarrow> tensor run" where
  "torch_tensor a = new_tensor (dims a) (\<lambda>s. aget a)"

section \<open>The notebook's functions\<close>

text \<open>
  \<^verbatim>\<open>class DFL\<close>. The constructor builds a convolution from \<open>c1\<close> channels to one, whose
  weight PyTorch allocates and fills with values of its own initialiser (\<open>w0\<close> here), and
  then overwrites the whole weight in place with \<open>0, 1, ..., c1 - 1\<close>.
\<close>

record DFL =
  conv_weight :: tensor
  c1 :: nat

definition Conv2d :: "(nat \<Rightarrow> fval) \<Rightarrow> nat \<Rightarrow> tensor run" where
  "Conv2d w0 c = new_tensor [1, c, 1, 1] (\<lambda>s idx. w0 (idx ! 1))"

definition DFL_init :: "(nat \<Rightarrow> fval) \<Rightarrow> nat \<Rightarrow> DFL run" where
  "DFL_init w0 c =
     sbind (Conv2d w0 c) (\<lambda>weight.
     sbind (torch_arange c) (\<lambda>x.
     sbind (lift (torch_view x [1, int c, 1, 1])) (\<lambda>v.
     sbind (assign_all weight v) (\<lambda>u.
     lift (Inr \<lparr>conv_weight = weight, c1 = c\<rparr>)))))"

text \<open>
  \<^verbatim>\<open>DFL.forward\<close>: \<^verbatim>\<open>b, c, a = x.shape\<close> needs exactly three dimensions; then
  \<^verbatim>\<open>self.conv(x.view(b, 4, self.c1, a).transpose(2, 1).softmax(1)).view(b, 4, a)\<close>.
\<close>

definition DFL_forward :: "DFL \<Rightarrow> tensor \<Rightarrow> tensor run" where
  "DFL_forward m x =
     (case shape x of
        [b, c, a] \<Rightarrow>
          sbind (lift (torch_view x [int b, 4, int (c1 m), int a])) (\<lambda>v.
          sbind (lift (torch_transpose v 2 1)) (\<lambda>t.
          sbind (torch_softmax t 1) (\<lambda>p.
          sbind (conv2d (conv_weight m) p) (\<lambda>r.
          lift (torch_view r [int b, 4, int a])))))
      | _ \<Rightarrow> lift (Inl ValueError))"

text \<open>\<^verbatim>\<open>dist2bbox(distance, anchor_points, xywh=True, dim=-1)\<close>; the parameter \<^verbatim>\<open>dim\<close> is \<open>dm\<close> here.\<close>

definition dist2bbox :: "tensor \<Rightarrow> tensor \<Rightarrow> bool \<Rightarrow> int \<Rightarrow> tensor run" where
  "dist2bbox distance anchor_points xywh dm =
     sbind (lift (torch_split distance 2 dm)) (\<lambda>parts.
     case parts of
       [lt, rb] \<Rightarrow>
         sbind (tensor_sub anchor_points lt) (\<lambda>x1y1.
         sbind (tensor_add anchor_points rb) (\<lambda>x2y2.
         if xywh
         then sbind (tensor_add x1y1 x2y2) (\<lambda>sm.
              sbind (tensor_div_scalar sm (Fin 2)) (\<lambda>c_xy.
              sbind (tensor_sub x2y2 x1y1) (\<lambda>wh.
              torch_cat [c_xy, wh] dm)))
         else torch_cat [x1y1, x2y2] dm))
     | _ \<Rightarrow> lift (Inl ValueError))"

text \<open>
  What \<^verbatim>\<open>post_process\<close> reads besides its argument and the store: the two table files it
  loads with \<^verbatim>\<open>np.load\<close>, and the initial values PyTorch gives to the weight of a new
  convolution.
\<close>

record env =
  files :: "string \<Rightarrow> array option"
  conv_init :: "nat \<Rightarrow> fval"

definition np_load :: "env \<Rightarrow> string \<Rightarrow> error + array" where
  "np_load e path = (case files e path of None \<Rightarrow> Inl FileNotFoundError | Some a \<Rightarrow> Inr a)"

fun emap :: "('a \<Rightarrow> error + 'b) \<Rightarrow> 'a list \<Rightarrow> error + 'b list" where
  "emap f [] = Inr []"
| "emap f (a # as) = ebind (f a) (\<lambda>b. ebind (emap f as) (\<lambda>bs. Inr (b # bs)))"

text \<open>\<^verbatim>\<open>xi.view(x[0].shape[0], 144, -1)\<close>, evaluated once for each \<open>xi\<close> of the list.\<close>

definition flatten_level :: "tensor list \<Rightarrow> tensor \<Rightarrow> error + tensor" where
  "flatten_level x xi =
     (case x of
        [] \<Rightarrow> Inl IndexError
      | x0 # _ \<Rightarrow>
          (case shape x0 of
             [] \<Rightarrow> Inl IndexError
           | b # _ \<Rightarrow> torch_view xi [int b, 144, - 1]))"

definition post_process :: "env \<Rightarrow> tensor list \<Rightarrow> (tensor \<times> tensor list) run" where
  "post_process e x =
     sbind (DFL_init (conv_init e) 16) (\<lambda>dfl.
     sbind (lift (np_load e ''./anchors.npy'')) (\<lambda>anchors_file.
     sbind (torch_tensor anchors_file) (\<lambda>anchors.
     sbind (lift (np_load e ''./strides.npy'')) (\<lambda>strides_file.
     sbind (torch_tensor strides_file) (\<lambda>strides.
     sbind (lift (emap (flatten_level x) x)) (\<lambda>levels.
     sbind (torch_cat levels 2) (\<lambda>c.
     sbind (lift (torch_split_sizes c [16 * 4, 80] 1)) (\<lambda>parts.
     case parts of
       [box, cls] \<Rightarrow>
         sbind (DFL_forward dfl box) (\<lambda>dist.
         sbind (lift (torch_unsqueeze anchors 0)) (\<lambda>ap.
         sbind (dist2bbox dist ap True 1) (\<lambda>bb.
         sbind (tensor_mul bb strides) (\<lambda>dbox.
         sbind (torch_sigmoid cls) (\<lambda>sg.
         sbind (torch_cat [dbox, sg] 1) (\<lambda>y.
         lift (Inr (y, x))))))))
     | _ \<Rightarrow> lift (Inl ValueError)))))))))"

section \<open>Reference definitions\<close>

text \<open>
  The quantities the properties below are stated against, written from the description of
  the pipeline rather than from its tensor code: the sixteen bin logits of one side of one
  anchor, the softmax of a list (in the 32-bit arithmetic, with the maximum subtracted
  before the exponential), a dot product, and the expected bin index.
\<close>

definition bin_logits :: "store \<Rightarrow> tensor \<Rightarrow> nat \<Rightarrow> nat \<Rightarrow> nat \<Rightarrow> fval list" where
  "bin_logits s x i sd j = map (\<lambda>k. tget s x [i, 16 * sd + k, j]) [0..<16]"

definition softmax_list :: "fval list \<Rightarrow> fval list" where
  "softmax_list v =
     (let mx = fmaximum v
      in map (\<lambda>u. fdiv (fexp (fsub u mx)) (fsum (map (\<lambda>w. fexp (fsub w mx)) v))) v)"

definition dot :: "fval list \<Rightarrow> fval list \<Rightarrow> fval" where
  "dot u v = fsum (map2 fmul u v)"

definition expected_bin :: "fval list \<Rightarrow> fval" where
  "expected_bin v = dot (map (\<lambda>k. Fin (real k)) [0..<length v]) (softmax_list v)"

text \<open>
  A box from an anchor point \<open>(ax, ay)\<close> and the distances to its left, top, right and
  bottom side: the corners, and either centre, width and height or the corners themselves.
\<close>

definition assemble_box :: "bool \<Rightarrow> fval \<Rightarrow> fval \<Rightarrow> fval \<Rightarrow> fval \<Rightarrow> fval \<Rightarrow> fval \<Rightarrow> fval list" where
  "assemble_box xywh ax ay l t r b =
     (let x1 = fsub ax l; y1 = fsub ay t; x2 = fadd ax r; y2 = fadd ay b
      in if xywh then [fdiv (fadd x1 x2) (Fin 2), fdiv (fadd y1 y2) (Fin 2), fsub x2 x1, fsub y2 y1]
         else [x1, y1, x2, y2])"

text \<open>
  The raw output is a list of tensors of shape \<open>[batch, 144, h, w]\<close>, one for each feature
  level, with at least one batch item and one cell each. \<^verbatim>\<open>post_process\<close> views each of
  them with the cells of a level in one dimension, which PyTorch allows when the rows of
  the level follow one another in the storage (or there is only one row, or one column).
  The prediction slots are the cells of the levels, row by row, one level after the
  other; \<open>raw_logit s x i ch j\<close> is channel \<open>ch\<close> of slot \<open>j\<close> in batch item \<open>i\<close>.
\<close>

definition level_slots :: "tensor \<Rightarrow> nat" where
  "level_slots t = shape t ! 2 * shape t ! 3"

definition slots :: "tensor list \<Rightarrow> nat" where
  "slots x = sum_list (map level_slots x)"

definition rows_adjacent :: "tensor \<Rightarrow> bool" where
  "rows_adjacent t =
     (shape t ! 2 = 1 \<or> shape t ! 3 = 1 \<or> strides t ! 2 = shape t ! 3 * strides t ! 3)"

definition raw_ok :: "nat \<Rightarrow> store \<Rightarrow> tensor list \<Rightarrow> bool" where
  "raw_ok b s x = (x \<noteq> [] \<and> 0 < b
      \<and> (\<forall>t \<in> set x. valid s t \<and> length (shape t) = 4 \<and> shape t ! 0 = b \<and> shape t ! 1 = 144
            \<and> 0 < shape t ! 2 \<and> 0 < shape t ! 3 \<and> rows_adjacent t))"

fun raw_logit :: "store \<Rightarrow> tensor list \<Rightarrow> nat \<Rightarrow> nat \<Rightarrow> nat \<Rightarrow> fval" where
  "raw_logit s [] i ch j = Fin 0"
| "raw_logit s (t # ts) i ch j =
     (if j < level_slots t then tget s t [i, ch, j div (shape t ! 3), j mod (shape t ! 3)]
      else raw_logit s ts i ch (j - level_slots t))"

text \<open>
  The tables of anchor points and strides are well-formed arrays of shape \<open>[2, n]\<close> and
  \<open>[1, n]\<close>.
\<close>

definition table_ok :: "nat \<Rightarrow> nat \<Rightarrow> array \<Rightarrow> bool" where
  "table_ok r n a = (wf a \<and> dims a = [r, n])"

text \<open>
  The decoded distance of side \<open>sd\<close> of slot \<open>j\<close>, and the box of the slot in pixels: the
  centre form of the assembled box, each coordinate times the stride of the slot.
\<close>

definition decoded_distance :: "store \<Rightarrow> tensor list \<Rightarrow> nat \<Rightarrow> nat \<Rightarrow> nat \<Rightarrow> fval" where
  "decoded_distance s x i sd j =
     expected_bin (map (\<lambda>k. raw_logit s x i (16 * sd + k) j) [0..<16])"

definition pixel_box :: "array \<Rightarrow> array \<Rightarrow> store \<Rightarrow> tensor list \<Rightarrow> nat \<Rightarrow> nat \<Rightarrow> fval list" where
  "pixel_box anchors stride_table s x i j =
     map (\<lambda>v. fmul v (aget stride_table [0, j]))
       (assemble_box True (aget anchors [0, j]) (aget anchors [1, j])
          (decoded_distance s x i 0 j) (decoded_distance s x i 1 j)
          (decoded_distance s x i 2 j) (decoded_distance s x i 3 j))"

text \<open>The row of the fused tensor that belongs to a batch item and a slot.\<close>

definition fused_row :: "store \<Rightarrow> tensor \<Rightarrow> nat \<Rightarrow> nat \<Rightarrow> fval list" where
  "fused_row s y i j = map (\<lambda>c. tget s y [i, c, j]) [0..<84]"

text \<open>
  A view of a level with its cells in one dimension: the same storage, and slot \<open>j\<close> is row
  \<open>j div w\<close> and column \<open>j mod w\<close> of the level, in every store.
\<close>

definition level_view :: "nat \<Rightarrow> tensor \<Rightarrow> tensor \<Rightarrow> bool" where
  "level_view b t l = (shape l = [b, 144, level_slots t] \<and> storage l = storage t
      \<and> length (strides l) = 3
      \<and> (\<forall>s' i ch j. i < b \<longrightarrow> ch < 144 \<longrightarrow> j < level_slots t \<longrightarrow>
            tget s' l [i, ch, j] = tget s' t [i, ch, j div shape t ! 3, j mod shape t ! 3]))"

text \<open>
  A computation extends the store when every storage that exists before it is unchanged
  after it, whatever it returns: it only adds storages. A computation yields \<open>P\<close> when
  every result it returns satisfies \<open>P\<close>.
\<close>

definition extends :: "'a run \<Rightarrow> bool" where
  "extends m = (\<forall>s. prefix s (snd (m s)))"

definition yields :: "('a \<Rightarrow> bool) \<Rightarrow> 'a run \<Rightarrow> bool" where
  "yields P m = (\<forall>s v s'. m s = (Inr v, s') \<longrightarrow> P v)"

text \<open>
  The tensor that differs from \<open>x\<close> by the constant \<open>c\<close> added, in the 32-bit arithmetic,
  to the sixteen bin logits of side \<open>sd\<close> of anchor \<open>j\<close> in batch item \<open>i\<close>. The addition to
  a finite entry is exact when its result is the real sum.
\<close>

definition shift_bins :: "tensor \<Rightarrow> nat \<Rightarrow> nat \<Rightarrow> nat \<Rightarrow> real \<Rightarrow> tensor run" where
  "shift_bins x i sd j c =
     new_tensor (shape x) (\<lambda>s idx.
       if idx ! 0 = i \<and> idx ! 1 div 16 = sd \<and> idx ! 2 = j
       then fadd (tget s x idx) (Fin c) else tget s x idx)"

definition shifted :: "real \<Rightarrow> fval \<Rightarrow> fval \<Rightarrow> bool" where
  "shifted c v v' = (case v of Fin a \<Rightarrow> v' = Fin (a + c) | _ \<Rightarrow> v' = v)"

definition exact_add :: "fval \<Rightarrow> real \<Rightarrow> bool" where
  "exact_add v c = shifted c v (fadd v (Fin c))"

text \<open>The real number a finite entry stands for.\<close>

fun val :: "fval \<Rightarrow> real" where
  "val (Fin a) = a"
| "val v = 0"

text \<open>
  The relative error of one rounding is at most \<open>2 ^ -24\<close>, and the absolute error of a
  rounding to a subnormal number at most \<open>2 ^ -150\<close>.
\<close>

definition unit_roundoff :: real where
  "unit_roundoff = 1 / 2 ^ 24"

definition tiny :: real where
  "tiny = 1 / 2 ^ 150"

section \<open>Example inputs\<close>

text \<open>
  The smallest well-formed call: a store that holds one storage of 144 zeros, one batch
  item, one feature level of a single cell, and tables for one slot.
\<close>

definition example_store :: store where
  "example_store = [replicate 144 (Fin 0)]"

definition example_raw :: "tensor list" where
  "example_raw = [\<lparr>storage = 0, offset = 0, shape = [1, 144, 1, 1], strides = [144, 1, 1, 1]\<rparr>]"

definition example_anchors :: array where
  "example_anchors = \<lparr>dims = [2, 1], elems = [Fin (1 / 2), Fin (1 / 2)]\<rparr>"

definition example_strides :: array where
  "example_strides = \<lparr>dims = [1, 1], elems = [Fin 8]\<rparr>"

definition example_env :: env where
  "example_env = \<lparr>files = [''./anchors.npy'' \<mapsto> example_anchors,
                            ''./strides.npy'' \<mapsto> example_strides],
                   conv_init = (\<lambda>k. Fin 0)\<rparr>"

text \<open>A tensor of bin logits for one anchor, all zero.\<close>

definition example_logits_store :: store where
  "example_logits_store = [replicate 64 (Fin 0)]"

definition example_logits :: tensor where
  "example_logits = \<lparr>storage = 0, offset = 0, shape = [1, 64, 1], strides = [64, 1, 1]\<rparr>"

text \<open>One anchor at \<open>(10, 10)\<close> with distance 2 to each side.\<close>

definition example_box_store :: store where
  "example_box_store = [[Fin 2, Fin 2, Fin 2, Fin 2], [Fin 10, Fin 10]]"

definition example_distance :: tensor where
  "example_distance = \<lparr>storage = 0, offset = 0, shape = [1, 4, 1], strides = [4, 1, 1]\<rparr>"

definition example_point :: tensor where
  "example_point = \<lparr>storage = 1, offset = 0, shape = [1, 2, 1], strides = [2, 1, 1]\<rparr>"

text \<open>
  More inputs: a store whose first bin logit is NaN, a raw output with two slots, an array
  of zeros of a given shape, and an environment with given tables.
\<close>

definition zeros :: "nat list \<Rightarrow> array" where
  "zeros sh = \<lparr>dims = sh, elems = replicate (prod_list sh) (Fin 0)\<rparr>"

definition table_env :: "array \<Rightarrow> array \<Rightarrow> env" where
  "table_env anchors stride_table =
     \<lparr>files = [''./anchors.npy'' \<mapsto> anchors, ''./strides.npy'' \<mapsto> stride_table],
      conv_init = (\<lambda>k. Fin 0)\<rparr>"

definition example_store_nan :: store where
  "example_store_nan = [NaN # replicate 143 (Fin 0)]"



text \<open>
  A level of two rows and two columns whose columns, not its rows, follow one another in
  the storage (the transpose of a row-major level).
\<close>

definition example_store4 :: store where
  "example_store4 = [replicate 576 (Fin 0)]"

definition example_raw_transposed :: "tensor list" where
  "example_raw_transposed =
     [\<lparr>storage = 0, offset = 0, shape = [1, 144, 2, 2], strides = [576, 4, 1, 2]\<rparr>]"

text \<open>
  Bin logits for one anchor where bin 0 of side 0 is 0 and every other logit is \<open>-1000\<close>;
  and where the last two bins of side 0 are \<open>-17\<close> and 0 and every other logit is
  \<open>-1000\<close>.
\<close>

definition example_peak_store :: store where
  "example_peak_store = [Fin 0 # replicate 63 (Fin (- 1000))]"

definition example_edge_store :: store where
  "example_edge_store =
     [replicate 14 (Fin (- 1000)) @ [Fin (- 17), Fin 0] @ replicate 48 (Fin (- 1000))]"

text \<open>A tensor of two entries and a tensor of one entry, in a store of their own.\<close>

definition example_pair_store :: store where
  "example_pair_store = [[Fin 0, Fin 0], [Fin 1]]"

definition example_pair :: tensor where
  "example_pair = \<lparr>storage = 0, offset = 0, shape = [2], strides = [1]\<rparr>"

definition example_one :: tensor where
  "example_one = \<lparr>storage = 1, offset = 0, shape = [1], strides = [1]\<rparr>"

section \<open>Detection filter\<close>

text \<open>
  Modelled from the spec: \<^verbatim>\<open>non_max_suppression\<close> is imported by the notebook from
  \<^verbatim>\<open>yolov8_utils\<close>, whose source is not part of the files at hand. The definitions of this
  section follow section 4.4 of the specification, over real numbers. A decoded box is in
  centre form; a prediction row is a box with its class probabilities.
\<close>

record decoded_box =
  cx :: real
  cy :: real
  bw :: real
  bh :: real

record prediction_row =
  row_box :: decoded_box
  row_scores :: "real list"

text \<open>
  Modelled from the spec: a detection is a decoded box, a class index, a confidence and the
  index of its row in the list before filtering.
\<close>

record detection =
  det_box :: decoded_box
  det_class :: nat
  det_conf :: real
  det_id :: nat

text \<open>
  Modelled from the spec: the configuration passed with each call. \<^verbatim>\<open>inference\<close> passes
  the thresholds 0.25 and 0.7, at most 300 detections, no allow-list, and class-aware
  suppression.
\<close>

record nms_config =
  conf_thres :: real
  iou_thres :: real
  max_det :: int
  classes :: "nat list option"
  agnostic :: bool

definition inference_config :: nms_config where
  "inference_config =
     \<lparr>conf_thres = 25 / 100, iou_thres = 7 / 10, max_det = 300, classes = None,
      agnostic = False\<rparr>"

datatype config_error = InvalidConfiguration

text \<open>
  Modelled from the spec: step 1, the maximum class probability of a row and its class index
  (the first one, when several classes share the maximum).
\<close>

fun argmax_from :: "nat \<Rightarrow> nat \<times> real \<Rightarrow> real list \<Rightarrow> nat \<times> real" where
  "argmax_from k best [] = best"
| "argmax_from k best (v # vs) =
     argmax_from (Suc k) (if snd best < v then (k, v) else best) vs"

definition best_class :: "real list \<Rightarrow> (nat \<times> real) option" where
  "best_class vs = (case vs of [] \<Rightarrow> None | v # vs' \<Rightarrow> Some (argmax_from 1 (0, v) vs'))"

definition candidate :: "nat \<times> prediction_row \<Rightarrow> detection option" where
  "candidate ir =
     (case best_class (row_scores (snd ir)) of
        None \<Rightarrow> None
      | Some (c, p) \<Rightarrow>
          Some \<lparr>det_box = row_box (snd ir), det_class = c, det_conf = p, det_id = fst ir\<rparr>)"

definition candidates :: "prediction_row list \<Rightarrow> detection list" where
  "candidates rows = List.map_filter candidate (enumerate 0 rows)"

text \<open>
  Modelled from the spec: intersection over union of two boxes, the overlap ratio of their
  areas (0 when the union is empty).
\<close>

definition overlap_1d :: "real \<Rightarrow> real \<Rightarrow> real \<Rightarrow> real \<Rightarrow> real" where
  "overlap_1d p v q w =
     max 0 (min (p + v / 2) (q + w / 2) - max (p - v / 2) (q - w / 2))"

definition iou :: "decoded_box \<Rightarrow> decoded_box \<Rightarrow> real" where
  "iou a b =
     (let i = overlap_1d (cx a) (bw a) (cx b) (bw b) * overlap_1d (cy a) (bh a) (cy b) (bh b);
          u = bw a * bh a + bw b * bh b - i
      in if u = 0 then 0 else i / u)"

text \<open>
  Modelled from the spec: step 4, an emitted detection removes a candidate whose overlap
  with it exceeds the threshold, within the same class unless suppression is agnostic.
\<close>

definition suppresses :: "nms_config \<Rightarrow> detection \<Rightarrow> detection \<Rightarrow> bool" where
  "suppresses cfg d d' =
     ((agnostic cfg \<or> det_class d = det_class d') \<and> iou_thres cfg < iou (det_box d) (det_box d'))"

text \<open>
  Modelled from the spec: steps 4 and 5, the greedy selection from the sorted candidates,
  which stops when none remains or the emitted count reaches the maximum.
\<close>

fun select :: "nms_config \<Rightarrow> nat \<Rightarrow> detection list \<Rightarrow> detection list" where
  "select cfg 0 ds = []"
| "select cfg (Suc n) [] = []"
| "select cfg (Suc n) (d # ds) =
     d # select cfg n (filter (\<lambda>d'. \<not> suppresses cfg d d') ds)"

text \<open>
  Modelled from the spec: the detection filter. A maximum that is not positive is a
  configuration error; otherwise rows below the confidence threshold are discarded, then
  rows whose class is not allowed, and the rest is sorted by descending confidence with a
  stable sort and handed to the greedy selection.
\<close>

definition non_max_suppression ::
  "nms_config \<Rightarrow> prediction_row list \<Rightarrow> config_error + detection list" where
  "non_max_suppression cfg rows =
     (if max_det cfg \<le> 0 then Inl InvalidConfiguration
      else
        let kept = filter (\<lambda>d. \<not> det_conf d < conf_thres cfg) (candidates rows);
            allowed = (case classes cfg of
                         None \<Rightarrow> kept
                       | Some cs \<Rightarrow> filter (\<lambda>d. det_class d \<in> set cs) kept);
            ordered = sort_key (\<lambda>d. - det_conf d) allowed
        in Inr (select cfg (nat (max_det cfg)) ordered))"

text \<open>
  Modelled from the spec: three rows for the scenarios of the specification. The first two
  boxes overlap with intersection over union 0.95 and share class 0; the third row is below
  the confidence threshold.
\<close>

definition example_rows :: "prediction_row list" where
  "example_rows =
     [\<lparr>row_box = \<lparr>cx = 10, cy = 10, bw = 10, bh = 19\<rparr>, row_scores = [8 / 10, 1 / 10]\<rparr>,
      \<lparr>row_box = \<lparr>cx = 10, cy = 10, bw = 10, bh = 20\<rparr>, row_scores = [9 / 10, 2 / 10]\<rparr>,
      \<lparr>row_box = \<lparr>cx = 50, cy = 50, bw = 4, bh = 4\<rparr>, row_scores = [1 / 10, 2 / 10]\<rparr>]"


section \<open>Rounding to the 32-bit format\<close>

lemma round_even_error: "\<bar>of_int (round_even q) - q\<bar> \<le> 1 / 2"
proof -
  have "of_int \<lfloor>q\<rfloor> \<le> q" "q < of_int \<lfloor>q\<rfloor> + 1" by linarith+
  then show ?thesis
    unfolding round_even_def Let_def by (auto simp: abs_le_iff)
qed

lemma round_even_of_int [simp]: "round_even (of_int k) = k"
  by (simp add: round_even_def)

lemma round_even_eq:
  assumes "\<bar>q - of_int k\<bar> < 1 / 2"
  shows "round_even q = k"
proof (cases "of_int k \<le> q")
  case True
  then have "\<lfloor>q\<rfloor> = k"
    using assms by (intro floor_unique) (simp_all add: abs_less_iff)
  then show ?thesis
    using assms True by (simp add: round_even_def abs_less_iff)
next
  case False
  then have "\<lfloor>q\<rfloor> = k - 1"
    using assms by (intro floor_unique) (simp_all add: abs_less_iff)
  then show ?thesis
    using assms False by (simp add: round_even_def abs_less_iff)
qed

lemma round_even_nonneg: "0 \<le> q \<Longrightarrow> 0 \<le> round_even q"
  unfolding round_even_def Let_def by auto

lemma round_even_nonpos: "q \<le> 0 \<Longrightarrow> round_even q \<le> 0"
proof -
  assume q: "q \<le> 0"
  show ?thesis
  proof (cases "q = of_int \<lfloor>q\<rfloor>")
    case True
    then have "round_even q = \<lfloor>q\<rfloor>" by (metis round_even_of_int)
    with q show ?thesis by simp
  next
    case False
    moreover have "of_int \<lfloor>q\<rfloor> \<le> q" by (rule of_int_floor_le)
    ultimately have "of_int \<lfloor>q\<rfloor> < q" by (metis less_le)
    with q have "\<lfloor>q\<rfloor> < 0" by linarith
    then show ?thesis
      unfolding round_even_def Let_def by auto
  qed
qed

lemma ulp32_pos [simp]: "0 < ulp32 x"
  by (simp add: ulp32_def)

lemma ulp32_nonzero [simp]: "ulp32 x \<noteq> 0"
  using ulp32_pos [of x] by linarith

lemma abs_ulp32 [simp]: "\<bar>ulp32 x\<bar> = ulp32 x"
  using ulp32_pos [of x] by linarith

lemma ulp32_nonneg [simp]: "0 \<le> ulp32 x"
  using ulp32_pos [of x] by linarith

lemma binade_ge: "- 126 \<le> binade x"
  by (simp add: binade_def)

lemma pow2_le_of_binade:
  assumes "x \<noteq> 0" and "- 126 \<le> \<lfloor>log 2 \<bar>x\<bar>\<rfloor>"
  shows "2 powi binade x \<le> \<bar>x\<bar>"
proof -
  have b: "binade x = \<lfloor>log 2 \<bar>x\<bar>\<rfloor>" using assms(2) by (simp add: binade_def)
  have "of_int \<lfloor>log 2 \<bar>x\<bar>\<rfloor> \<le> log 2 \<bar>x\<bar>" by simp
  then have "2 powr of_int \<lfloor>log 2 \<bar>x\<bar>\<rfloor> \<le> \<bar>x\<bar>"
    using assms(1) by (subst (asm) le_log_iff) auto
  then show ?thesis
    by (simp add: b powr_real_of_int')
qed

lemma abs_less_pow2_binade: 
  assumes "x \<noteq> 0"
  shows "\<bar>x\<bar> < 2 powi (binade x + 1)"
proof -
  have "log 2 \<bar>x\<bar> < of_int (\<lfloor>log 2 \<bar>x\<bar>\<rfloor> + 1)" by linarith
  also have "\<dots> \<le> of_int (binade x + 1)" by (simp add: binade_def)
  finally have "log 2 \<bar>x\<bar> < of_int (binade x + 1)" .
  then have "\<bar>x\<bar> < 2 powr of_int (binade x + 1)"
    using assms by (subst (asm) log_less_iff) auto
  then show ?thesis
    using powr_real_of_int' [of 2 "binade x + 1"] by simp
qed


lemma half_ulp_bound: "x \<noteq> 0 \<Longrightarrow> ulp32 x / 2 \<le> unit_roundoff * \<bar>x\<bar> + tiny"
proof -
  assume x: "x \<noteq> 0"
  show ?thesis
  proof (cases "- 126 \<le> \<lfloor>log 2 \<bar>x\<bar>\<rfloor>")
    case True
    have "ulp32 x / 2 = 2 powi binade x / 2 ^ 24"
      by (simp add: ulp32_def power_int_diff)
    also have "\<dots> \<le> \<bar>x\<bar> / 2 ^ 24"
      using pow2_le_of_binade [OF x True] by (simp add: divide_right_mono)
    finally show ?thesis by (simp add: unit_roundoff_def tiny_def)
  next
    case False
    then have "binade x = - 126" by (simp add: binade_def)
    then have "ulp32 x / 2 = tiny"
      by (simp add: ulp32_def tiny_def power_int_minus field_simps)
    then show ?thesis by (simp add: unit_roundoff_def)
  qed
qed

lemma round32_error:
  assumes "\<bar>x\<bar> < 2 ^ 127"
  shows "\<exists>y. round32 x = Fin y \<and> \<bar>y - x\<bar> \<le> unit_roundoff * \<bar>x\<bar> + tiny
           \<and> (0 \<le> x \<longrightarrow> 0 \<le> y) \<and> (x \<le> 0 \<longrightarrow> y \<le> 0)"
proof (cases "x = 0")
  case True
  then show ?thesis by (simp add: round32_def unit_roundoff_def tiny_def)
next
  case False
  define y where "y = of_int (round_even (x / ulp32 x)) * ulp32 x"
  have "y - x = (of_int (round_even (x / ulp32 x)) - x / ulp32 x) * ulp32 x"
    by (simp add: y_def left_diff_distrib)
  then have "\<bar>y - x\<bar> = \<bar>of_int (round_even (x / ulp32 x)) - x / ulp32 x\<bar> * ulp32 x"
    by (simp add: abs_mult)
  also have "\<dots> \<le> 1 / 2 * ulp32 x"
    by (intro mult_right_mono round_even_error) simp
  also have "\<dots> \<le> unit_roundoff * \<bar>x\<bar> + tiny"
    using half_ulp_bound [OF False] by simp
  finally have e: "\<bar>y - x\<bar> \<le> unit_roundoff * \<bar>x\<bar> + tiny" .
  have "\<bar>y\<bar> \<le> \<bar>x\<bar> + \<bar>y - x\<bar>" by simp
  also have "\<dots> \<le> \<bar>x\<bar> + (unit_roundoff * \<bar>x\<bar> + tiny)" using e by simp
  also have "\<dots> < 2 ^ 128"
    using assms by (simp add: unit_roundoff_def tiny_def)
  finally have "\<not> 2 ^ 128 \<le> \<bar>y\<bar>" by simp
  then have r: "round32 x = Fin y"
    using False by (simp add: round32_def y_def Let_def)
  have "0 \<le> y" if "0 \<le> x"
    unfolding y_def using that by (intro mult_nonneg_nonneg) (simp_all add: round_even_nonneg)
  moreover have "y \<le> 0" if "x \<le> 0"
  proof -
    have "x / ulp32 x \<le> 0" using that by (simp add: divide_nonpos_pos)
    then have "round_even (x / ulp32 x) \<le> 0" by (rule round_even_nonpos)
    then show ?thesis
      unfolding y_def by (simp add: mult_nonpos_nonneg)
  qed
  ultimately show ?thesis using r e by blast
qed

lemma binade_eq:
  assumes "2 powi k \<le> \<bar>x\<bar>" and "\<bar>x\<bar> < 2 powi (k + 1)" and "- 126 \<le> k"
  shows "binade x = k"
proof -
  have x: "0 < \<bar>x\<bar>"
    using assms(1) zero_less_power_int [of "2::real" k] by linarith
  have "2 powr of_int k \<le> \<bar>x\<bar>" "\<bar>x\<bar> < 2 powr (of_int k + 1)"
    using assms(1,2) powr_real_of_int' [of 2 k] powr_real_of_int' [of 2 "k + 1"] by simp_all
  then have "\<lfloor>log 2 \<bar>x\<bar>\<rfloor> = k"
    using x by (subst floor_log_eq_powr_iff) simp_all
  then show ?thesis
    using assms(3) by (simp add: binade_def)
qed

lemma binade_small:
  assumes "x \<noteq> 0" and "\<bar>x\<bar> < 2 powi (- 126)"
  shows "binade x = - 126"
proof -
  have "\<bar>x\<bar> < 2 powr of_int (- 126)"
    using assms(2) powr_real_of_int' [of 2 "- 126"] by simp
  then have "log 2 \<bar>x\<bar> < of_int (- 126)"
    using assms(1) by (subst log_less_iff) simp_all
  then have "\<lfloor>log 2 \<bar>x\<bar>\<rfloor> < - 126"
    by (simp add: floor_less_iff)
  then show ?thesis by (simp add: binade_def)
qed

lemma round32_dyadic:
  assumes m: "\<bar>m\<bar> < 2 ^ 24" and e: "- 149 \<le> e" "e \<le> 100"
  shows "round32 (of_int m * 2 powi e) = Fin (of_int m * 2 powi e)"
proof (cases "m = 0")
  case True
  then show ?thesis by (simp add: round32_def)
next
  case False
  define x :: real where "x = of_int m * 2 powi e"
  have x0: "x \<noteq> 0" using False by (simp add: x_def)
  have ax: "\<bar>x\<bar> = of_int \<bar>m\<bar> * 2 powi e"
    by (simp add: x_def abs_mult)
  have "of_int \<bar>m\<bar> < (2::real) ^ 24"
    using m by (metis of_int_less_iff of_int_numeral of_int_power)
  then have lt: "\<bar>x\<bar> < 2 powi (e + 24)"
    by (simp add: ax power_int_add)
  have "\<bar>x\<bar> < 2 powr of_int (e + 24)"
    using lt powr_real_of_int' [of 2 "e + 24"] by simp
  then have "log 2 \<bar>x\<bar> < of_int (e + 24)"
    using x0 by (subst log_less_iff) simp_all
  then have "\<lfloor>log 2 \<bar>x\<bar>\<rfloor> < e + 24"
    by (simp add: floor_less_iff)
  then have b: "binade x \<le> e + 23"
    using e(1) by (simp add: binade_def)
  define k where "k = nat (e + 23 - binade x)"
  have k: "int k = e + 23 - binade x" using b by (simp add: k_def)
  have "2 powi e = 2 powi (int k + (binade x - 23))"
    by (simp add: k)
  also have "\<dots> = 2 ^ k * ulp32 x"
    by (simp add: power_int_add ulp32_def)
  finally have pe: "2 powi e = 2 ^ k * ulp32 x" .
  have "x = of_int m * 2 powi e" by (rule x_def)
  also have "\<dots> = of_int m * (2 ^ k * ulp32 x)" by (simp only: pe)
  also have "\<dots> = of_int (m * 2 ^ k) * ulp32 x" by simp
  finally have xk: "x = of_int (m * 2 ^ k) * ulp32 x" .
  then have q: "x / ulp32 x = of_int (m * 2 ^ k)"
    by (metis nonzero_mult_div_cancel_right ulp32_nonzero)
  have r: "of_int (round_even (x / ulp32 x)) * ulp32 x = x"
    unfolding q round_even_of_int by (rule xk [symmetric])
  have "\<bar>x\<bar> < 2 ^ 24 * 2 powi e"
    using \<open>of_int \<bar>m\<bar> < (2::real) ^ 24\<close> by (simp add: ax)
  also have "\<dots> \<le> 2 ^ 24 * 2 powi 100"
    using e(2) by (intro mult_left_mono power_int_increasing) simp_all
  also have "\<dots> \<le> 2 ^ 128" by simp
  finally have "\<not> 2 ^ 128 \<le> \<bar>x\<bar>" by simp
  then show ?thesis
    using x0 r by (simp add: round32_def Let_def x_def [symmetric])
qed

lemma round32_of_int: "\<bar>m\<bar> < 2 ^ 24 \<Longrightarrow> round32 (of_int m) = Fin (of_int m)"
  using round32_dyadic [of m 0] by simp

lemma round32_numeral [simp]:
  "numeral n < (2::int) ^ 24 \<Longrightarrow> round32 (numeral n) = Fin (numeral n)"
  using round32_of_int [of "numeral n"] by simp

lemma round32_neg_numeral [simp]:
  "numeral n < (2::int) ^ 24 \<Longrightarrow> round32 (- numeral n) = Fin (- numeral n)"
  using round32_of_int [of "- numeral n"] by simp

lemma round32_0 [simp]: "round32 0 = Fin 0"
  by (simp add: round32_def)

lemma round32_1 [simp]: "round32 1 = Fin 1"
  using round32_of_int [of 1] by simp

lemma round32_over_pow2:
  "\<bar>m\<bar> < 2 ^ 24 \<Longrightarrow> n \<le> 149 \<Longrightarrow> round32 (of_int m / 2 ^ n) = Fin (of_int m / 2 ^ n)"
  using round32_dyadic [of m "- int n"] by (simp add: power_int_minus field_simps)

lemma round32_tiny:
  assumes "\<bar>x\<bar> < 1 / 2 ^ 150"
  shows "round32 x = Fin 0"
proof (cases "x = 0")
  case True
  then show ?thesis by simp
next
  case False
  have "\<bar>x\<bar> < 2 powi (- 126)"
    using assms by (simp add: power_int_minus field_simps)
  with False have b: "binade x = - 126"
    by (rule binade_small)
  have u: "ulp32 x = 1 / 2 ^ 149"
    by (simp add: ulp32_def b power_int_minus field_simps)
  have "\<bar>x / ulp32 x\<bar> < 1 / 2"
    using assms by (simp add: u abs_mult)
  then have "round_even (x / ulp32 x) = 0"
    by (intro round_even_eq) simp
  then show ?thesis
    using False by (simp add: round32_def)
qed

lemma length_indices: "length (indices sh) = prod_list sh"
  by (induction sh) (simp_all add: length_concat comp_def sum_list_triv)

lemma concat_nth_uniform:
  "\<lbrakk>\<forall>xs \<in> set xss. length xs = n; i < length xss; k < n\<rbrakk>
    \<Longrightarrow> concat xss ! (i * n + k) = xss ! i ! k"
proof (induction xss arbitrary: i)
  case Nil
  then show ?case by simp
next
  case (Cons xs xss)
  show ?case
  proof (cases i)
    case 0
    with Cons.prems show ?thesis by (simp add: nth_append)
  next
    case (Suc i')
    with Cons.prems have "concat xss ! (i' * n + k) = xss ! i' ! k"
      by (intro Cons.IH) auto
    moreover have "length xs = n" using Cons.prems by simp
    ultimately show ?thesis using Suc by (simp add: nth_append)
  qed
qed

lemma flat_index_less:
  "valid_index sh idx \<Longrightarrow> flat_index sh idx < prod_list sh"
proof (induction sh arbitrary: idx)
  case Nil
  then show ?case by (simp add: valid_index_def)
next
  case (Cons d ds)
  then obtain i "is" where idx: "idx = i # is" and i: "i < d" and v: "valid_index ds is"
    by (auto simp: valid_index_def list_all2_Cons2)
  have k: "flat_index ds is < prod_list ds" using Cons.IH v by simp
  have "i * prod_list ds + flat_index ds is < Suc i * prod_list ds" using k by simp
  also have "\<dots> \<le> d * prod_list ds" using i by (intro mult_le_mono1) simp
  finally show ?case by (simp add: idx)
qed

lemma nth_indices:
  "valid_index sh idx \<Longrightarrow> indices sh ! flat_index sh idx = idx"
proof (induction sh arbitrary: idx)
  case Nil
  then show ?case by (simp add: valid_index_def)
next
  case (Cons d ds)
  then obtain i "is" where idx: "idx = i # is" and i: "i < d" and v: "valid_index ds is"
    by (auto simp: valid_index_def list_all2_Cons2)
  let ?xss = "map (\<lambda>i. map ((#) i) (indices ds)) [0..<d]"
  have k: "flat_index ds is < prod_list ds" using v by (rule flat_index_less)
  have "concat ?xss ! (i * prod_list ds + flat_index ds is) = ?xss ! i ! flat_index ds is"
    using i k by (intro concat_nth_uniform) (auto simp: length_indices)
  also have "\<dots> = i # indices ds ! flat_index ds is"
    using i k by (simp add: length_indices)
  also have "\<dots> = i # is" using Cons.IH v by simp
  finally show ?case by (simp add: idx)
qed

lemma set_indices: "set (indices sh) = {idx. valid_index sh idx}"
proof (induction sh)
  case Nil
  then show ?case by (auto simp: valid_index_def)
next
  case (Cons d ds)
  then show ?case
    by (auto simp: valid_index_def list_all2_Cons2)
qed

lemma valid_index_pos: "valid_index sh idx \<Longrightarrow> d \<in> set sh \<Longrightarrow> 0 < d"
  unfolding valid_index_def
  by (induction idx sh rule: list_all2_induct) auto

lemma hd_contiguous: "ds \<noteq> [] \<Longrightarrow> (\<forall>d \<in> set (tl ds). 0 < d) \<Longrightarrow> hd (contiguous ds) = prod_list (tl ds)"
proof (induction ds rule: contiguous.induct)
  case (3 d e ds)
  then show ?case by (cases ds) (simp_all add: max_def)
qed simp_all

lemma dot_contiguous:
  "valid_index sh idx \<Longrightarrow> sum_list (map2 (*) idx (contiguous sh)) = flat_index sh idx"
proof (induction sh arbitrary: idx rule: contiguous.induct)
  case 1
  then show ?case by (simp add: valid_index_def)
next
  case (2 d)
  then show ?case by (auto simp: valid_index_def list_all2_Cons2)
next
  case (3 d e ds)
  then obtain i "is" where idx: "idx = i # is" and i: "i < d" and v: "valid_index (e # ds) is"
    by (auto simp: valid_index_def list_all2_Cons2)
  from v have pos: "0 < e" "\<forall>d \<in> set ds. 0 < d"
    using valid_index_pos [OF v] by auto
  have h: "hd (contiguous (e # ds)) = prod_list ds"
    using hd_contiguous [of "e # ds"] pos by simp
  have "max e 1 = e" using pos by simp
  then show ?case
    using "3.IH" [OF v] h by (simp add: idx)
qed

lemma length_contiguous [simp]: "length (contiguous sh) = length sh"
  by (induction sh rule: contiguous.induct) simp_all

lemma pos_mult_gt1 [simp]:
  "0 < a \<Longrightarrow> 0 < b \<Longrightarrow> Suc 0 < k \<Longrightarrow> Suc 0 < a * k * b"
proof -
  assume a: "0 < a" and b: "0 < b" and k: "Suc 0 < k"
  have 1: "k \<le> a * k" using a by (cases a) simp_all
  have 2: "a * k \<le> a * k * b" using b by (cases b) simp_all
  show ?thesis using 1 2 k by linarith
qed

lemma pos_cases [simp]: "0 < b \<Longrightarrow> Suc 0 < b \<or> b = Suc 0"
  by auto

lemma view_dfl:
  assumes "0 < b" "0 < a"
  shows "\<exists>st0. compute_stride [b, 64, a] [s0, s1, s2] [b, 4, 16, a] = Some [st0, 16 * s1, s1, s2]
     \<and> (b \<noteq> 1 \<longrightarrow> st0 = s0)"
  using assms
  by (auto simp: compute_stride_def)

lemma view_level:
  assumes "0 < b" "0 < h" "0 < w" "h = 1 \<or> w = 1 \<or> s2 = w * s3"
  shows "\<exists>st0 st1 st2. compute_stride [b, 144, h, w] [s0, s1, s2, s3] [b, 144, h * w] = Some [st0, st1, st2]
     \<and> (b \<noteq> 1 \<longrightarrow> st0 = s0) \<and> st1 = s1 \<and> (\<forall>j < h * w. j * st2 = (j div w) * s2 + (j mod w) * s3)"
proof -
  consider (h1) "h = 1" | (w1) "h \<noteq> 1" "w = 1" | (adj) "h \<noteq> 1" "w \<noteq> 1" "s2 = w * s3"
    using assms(4) by blast
  then show ?thesis
  proof cases
    case h1
    then show ?thesis using assms(1,3)
      by (simp add: compute_stride_def)
  next
    case w1
    then show ?thesis using assms(1,2)
      by (auto simp: compute_stride_def)
  next
    case adj
    have wh: "Suc 0 < w * h"
      using adj assms(2,3) by (cases w; cases h) auto
    have j: "j * s3 = j div w * (w * s3) + j mod w * s3" for j
    proof -
      have "j * s3 = (j div w * w + j mod w) * s3" by simp
      then show ?thesis by (simp only: distrib_right mult.assoc)
    qed
    from adj show ?thesis using assms(1,2,3) wh
      by (simp add: compute_stride_def j [symmetric])
  qed
qed


lemma lift_apply [simp]: "lift r s = (r, s)"
  by (simp add: lift_def)

lemma sbind_lift_Inr [simp]: "sbind (lift (Inr v)) f = f v"
  by (rule ext) (simp add: sbind_def)

lemma sbind_lift_Inl [simp]: "sbind (lift (Inl e)) f = lift (Inl e)"
  by (rule ext) (simp add: sbind_def)

lemma sbind_Inr: "m s = (Inr v, s') \<Longrightarrow> sbind m f s = f v s'"
  by (simp add: sbind_def)

lemma sbind_Inl: "m s = (Inl e, s') \<Longrightarrow> sbind m f s = (Inl e, s')"
  by (simp add: sbind_def)

lemma ebind_Inr [simp]: "ebind (Inr v) f = f v"
  by (simp add: ebind_def)

lemma ebind_Inl [simp]: "ebind (Inl e) f = Inl e"
  by (simp add: ebind_def)

lemma fresh_sel [simp]:
  "storage (fresh n sh) = n" "offset (fresh n sh) = 0" "shape (fresh n sh) = sh"
  "strides (fresh n sh) = contiguous sh"
  by (simp_all add: fresh_def)

lemma address_fresh: "valid_index sh idx \<Longrightarrow> address (fresh n sh) idx = flat_index sh idx"
  by (simp add: address_def dot_contiguous)

lemma tget_fresh:
  "valid_index sh idx \<Longrightarrow> tget (s @ map g (indices sh) # bs) (fresh (length s) sh) idx = g idx"
  by (simp add: tget_def address_fresh nth_append length_indices flat_index_less nth_indices)

lemma valid_fresh: "valid (s @ map g (indices sh) # bs) (fresh (length s) sh)"
  by (simp add: valid_def list_all_iff set_indices address_fresh nth_append length_indices
      flat_index_less)

lemma tget_prefix: "prefix s s' \<Longrightarrow> storage t < length s \<Longrightarrow> tget s' t idx = tget s t idx"
  by (auto simp: prefix_def tget_def nth_append)

lemma valid_prefix: "prefix s s' \<Longrightarrow> valid s t \<Longrightarrow> valid s' t"
  by (auto simp: prefix_def valid_def nth_append)

lemma valid_storage: "valid s t \<Longrightarrow> storage t < length s"
  by (simp add: valid_def)

lemma new_tensor_run:
  "new_tensor sh f s = (Inr (fresh (length s) sh), s @ [map (f s) (indices sh)])"
  by (simp add: new_tensor_def)

lemma norm_dim_nat [simp]: "norm_dim r (int m) = (if m < r then Inr m else Inl IndexError)"
  by (simp add: norm_dim_def)

lemma norm_dim_numeral [simp]:
  "norm_dim r (numeral n) = (if numeral n < r then Inr (numeral n) else Inl IndexError)"
  using norm_dim_nat [of r "numeral n"] by simp

lemma norm_dim_1 [simp]: "norm_dim r 1 = (if 1 < r then Inr 1 else Inl IndexError)"
  using norm_dim_nat [of r 1] by simp

lemma filter_int_ne: "filter (\<lambda>d. d \<noteq> - 1) (map int sh) = map int sh"
  by (induction sh) auto

lemma filter_int_eq: "filter (\<lambda>d. d = - 1) (map int sh) = []"
  by (induction sh) auto

lemma infer_size_nat:
  "infer_size (map int sh) n = (if prod_list sh = n then Inr sh else Inl RuntimeError)"
  by (auto simp: infer_size_def Let_def filter_int_ne filter_int_eq comp_def)

lemma infer_size_last:
  "\<lbrakk>0 < prod_list sh; n mod prod_list sh = 0\<rbrakk>
    \<Longrightarrow> infer_size (map int sh @ [- 1]) n = Inr (sh @ [n div prod_list sh])"
  by (auto simp: infer_size_def Let_def filter_int_ne filter_int_eq comp_def)

lemma DFL_init_16:
  "DFL_init w0 16 s
    = (Inr \<lparr>conv_weight = fresh (length s) [1, 16, 1, 1], c1 = 16\<rparr>,
       s @ [map (\<lambda>k. Fin (real k)) [0..<16], map (\<lambda>k. Fin (real k)) [0..<16]])"
proof -
  have i1: "indices [1, 16, 1, 1] = map (\<lambda>k. [0, k, 0, 0]) [0..<16]"
    by (simp add: upt_rec)
  have i2: "indices [16] = map (\<lambda>k. [k]) [0..<16]"
    by (simp add: upt_rec)
  have v: "torch_view (fresh n [16]) [1, 16, 1, 1]
      = Inr ((fresh n [16])\<lparr>shape := [1, 16, 1, 1], strides := [16, 1, 1, 1]\<rparr>)" for n
    using infer_size_nat [of "[1, 16, 1, 1]" 16]
    by (simp add: torch_view_def numel_def compute_stride_def)
  have b: "broadcast_shapes [1, 16, 1, 1] [1, 16, 1, 1] = Inr [1, 16, 1, 1]"
    by (simp add: broadcast_shapes_def pad_shape_def)
  show ?thesis
    using i1 i2 b v
    by (simp add: DFL_init_def Conv2d_def torch_arange_def new_tensor_run sbind_def assign_all_def
        bindex_def tget_def address_def nth_append upt_rec del: indices.simps)
qed


declare indices.simps [simp del]

lemma valid_index3:
  "valid_index [a, b, c] idx \<longleftrightarrow> (\<exists>i j k. idx = [i, j, k] \<and> i < a \<and> j < b \<and> k < c)"
  by (auto simp: valid_index_def list_all2_Cons2)

lemma valid_index4:
  "valid_index [a, b, c, d] idx
    \<longleftrightarrow> (\<exists>i j k l. idx = [i, j, k, l] \<and> i < a \<and> j < b \<and> k < c \<and> l < d)"
  by (auto simp: valid_index_def list_all2_Cons2)

lemma expected_bin_eq:
  "expected_bin (map X [0..<n])
    = fsum (map (\<lambda>k. fmul (Fin (real k))
          (fdiv (fexp (fsub (X k) (fmaximum (map X [0..<n]))))
                (fsum (map (\<lambda>k'. fexp (fsub (X k') (fmaximum (map X [0..<n])))) [0..<n]))))
        [0..<n])"
  by (simp add: expected_bin_def dot_def softmax_list_def Let_def zip_map_map zip_same_conv_map
      comp_def)

lemma strides3: "length (strides x) = 3 \<Longrightarrow> \<exists>s0 s1 s2. strides x = [s0, s1, s2]"
  by (auto simp: length_Suc_conv eval_nat_numeral)

lemma strides4: "length (strides x) = 4 \<Longrightarrow> \<exists>s0 s1 s2 s3. strides x = [s0, s1, s2, s3]"
  by (auto simp: length_Suc_conv eval_nat_numeral)

lemma DFL_forward_ok:
  assumes ws: "shape (conv_weight m) = [1, 16, 1, 1]"
    and wv: "storage (conv_weight m) < length s"
    and we: "\<And>k. k < 16 \<Longrightarrow> tget s (conv_weight m) [0, k, 0, 0] = Fin (real k)"
    and c: "c1 m = 16"
    and sh: "shape x = [b, 64, a]"
    and vx: "length (strides x) = 3"
    and b: "0 < b" and a: "0 < a"
  shows "\<exists>y s'. DFL_forward m x s = (Inr y, s') \<and> prefix s s' \<and> shape y = [b, 4, a]
           \<and> valid s' y
           \<and> (\<forall>i<b. \<forall>sd<4. \<forall>j<a. tget s' y [i, sd, j] = expected_bin (bin_logits s x i sd j))"
proof -
  obtain s0 s1 s2 where st: "strides x = [s0, s1, s2]"
    using strides3 [OF vx] by blast
  obtain st0 where cs: "compute_stride [b, 64, a] [s0, s1, s2] [b, 4, 16, a]
      = Some [st0, 16 * s1, s1, s2]" and st0: "b \<noteq> 1 \<longrightarrow> st0 = s0"
    using view_dfl [OF b a] by blast
  define v where "v = x\<lparr>shape := [b, 4, 16, a], strides := [st0, 16 * s1, s1, s2]\<rparr>"
  define t where "t = v\<lparr>shape := [b, 16, 4, a], strides := [st0, s1, 16 * s1, s2]\<rparr>"
  have 1: "torch_view x [int b, 4, 16, int a] = Inr v"
    using infer_size_nat [of "[b, 4, 16, a]" "numel x"] cs
    by (simp add: torch_view_def numel_def sh st v_def)
  have 2: "torch_transpose v 2 1 = Inr t"
    by (simp add: torch_transpose_def v_def t_def list_swap_def)
  define pf where "pf = (\<lambda>idx.
       let lane = map (\<lambda>k. tget s t (idx[1 := k])) [0..<16];
           mx = fmaximum lane
       in fdiv (fexp (fsub (tget s t idx) mx)) (fsum (map (\<lambda>u. fexp (fsub u mx)) lane)))"
  define p where "p = fresh (length s) [b, 16, 4, a]"
  define sa where "sa = s @ [map pf (indices [b, 16, 4, a])]"
  have 3: "torch_softmax t 1 s = (Inr p, sa)"
    by (simp add: torch_softmax_def t_def v_def new_tensor_run p_def sa_def pf_def)
  define rf where "rf = (\<lambda>idx.
       fsum (map (\<lambda>k. fmul (tget sa (conv_weight m) [idx ! 1, k, 0, 0])
                           (tget sa p [idx ! 0, k, idx ! 2, idx ! 3])) [0..<16]))"
  define r where "r = fresh (length sa) [b, 1, 4, a]"
  define sb where "sb = sa @ [map rf (indices [b, 1, 4, a])]"
  have 4: "conv2d (conv_weight m) p sa = (Inr r, sb)"
    using a by (simp add: conv2d_def ws p_def new_tensor_run r_def sb_def rf_def)
  define y where "y = fresh (length sa) [b, 4, a]"
  have 5: "torch_view r [int b, 4, int a] = Inr y"
    using infer_size_nat [of "[b, 4, a]" "numel r"] a b
    by (simp add: torch_view_def numel_def r_def compute_stride_def y_def fresh_def)
  have fw: "DFL_forward m x s = (Inr y, sb)"
    by (simp add: DFL_forward_def sh c 1 2 sbind_Inr [of "torch_softmax t 1", OF 3]
        sbind_Inr [of "conv2d (conv_weight m) p", OF 4] 5)
  have pre: "prefix s sb"
    by (simp add: sb_def sa_def)
  have ent: "tget sb y [i, sd, j] = expected_bin (bin_logits s x i sd j)"
    if i: "i < b" and sd: "sd < 4" and j: "j < a" for i sd j
  proof -
    have ty: "tget sb y [i, sd, j] = rf [i, 0, sd, j]"
    proof -
      have "tget sb y [i, sd, j] = tget sb r [i, 0, sd, j]"
        using a by (simp add: tget_def address_def y_def r_def)
      also have "\<dots> = rf [i, 0, sd, j]"
        unfolding sb_def r_def using i sd j by (intro tget_fresh) (simp add: valid_index4)
      finally show ?thesis .
    qed
    have tt: "tget s t [i, k, sd, j] = tget s x [i, 16 * sd + k, j]" if "k < 16" for k
    proof -
      have "i * st0 = i * s0" using st0 i by (cases "b = 1") auto
      then show ?thesis
        by (auto simp: tget_def address_def t_def v_def st algebra_simps)
    qed
    have lane: "map (\<lambda>k. tget s t [i, k, sd, j]) [0..<16] = bin_logits s x i sd j"
      unfolding bin_logits_def by (rule map_cong) (simp_all add: tt)
    have tp: "tget sa p [i, k, sd, j]
        = fdiv (fexp (fsub (tget s x [i, 16 * sd + k, j]) (fmaximum (bin_logits s x i sd j))))
            (fsum (map (\<lambda>u. fexp (fsub u (fmaximum (bin_logits s x i sd j))))
                 (bin_logits s x i sd j)))" if k: "k < 16" for k
    proof -
      have "tget sa p [i, k, sd, j] = pf [i, k, sd, j]"
        unfolding sa_def p_def using i sd j k by (intro tget_fresh) (simp add: valid_index4)
      then show ?thesis
        using k by (simp add: pf_def Let_def lane tt del: map_map)
    qed
    have tw: "tget sa (conv_weight m) [0, k, 0, 0] = Fin (real k)" if "k < 16" for k
    proof -
      have "tget sa (conv_weight m) [0, k, 0, 0] = tget s (conv_weight m) [0, k, 0, 0]"
        using wv by (intro tget_prefix) (simp_all add: sa_def)
      then show ?thesis using we that by simp
    qed
    have mr: "map (\<lambda>k. fmul (tget sa (conv_weight m) [0, k, 0, 0]) (tget sa p [i, k, sd, j])) [0..<16]
        = map (\<lambda>k. fmul (Fin (real k))
            (fdiv (fexp (fsub (tget s x [i, 16 * sd + k, j]) (fmaximum (bin_logits s x i sd j))))
              (fsum (map (\<lambda>u. fexp (fsub u (fmaximum (bin_logits s x i sd j))))
                 (bin_logits s x i sd j))))) [0..<16]"
      by (rule map_cong) (simp_all add: tp tw)
    have "rf [i, 0, sd, j]
        = fsum (map (\<lambda>k. fmul (Fin (real k))
            (fdiv (fexp (fsub (tget s x [i, 16 * sd + k, j]) (fmaximum (bin_logits s x i sd j))))
              (fsum (map (\<lambda>u. fexp (fsub u (fmaximum (bin_logits s x i sd j))))
                 (bin_logits s x i sd j))))) [0..<16])"
      by (simp add: rf_def mr)
    also have "\<dots> = expected_bin (bin_logits s x i sd j)"
      unfolding bin_logits_def
      using expected_bin_eq [of "\<lambda>k. tget s x [i, 16 * sd + k, j]" 16]
      by (simp add: comp_def)
    finally show ?thesis
      by (simp add: ty)
  qed
  have shy: "shape y = [b, 4, a]" by (simp add: y_def)
  have vy: "valid sb y"
  proof -
    have l: "length (sb ! storage y) = prod_list [b, 4, a]"
      by (simp add: y_def sb_def sa_def nth_append length_indices)
    have "address y idx < length (sb ! storage y)" if "valid_index [b, 4, a] idx" for idx
      unfolding l using that flat_index_less [OF that] by (simp add: y_def address_fresh)
    then show ?thesis
      by (simp add: valid_def list_all_iff set_indices shy) (simp add: y_def sb_def sa_def)
  qed
  show ?thesis
    using fw pre shy vy ent by (intro exI [of _ y] exI [of _ sb]) simp
qed


lemma bdims_same: "bdims sh sh = Inr sh"
  by (induction sh) simp_all

lemma upt_0_2: "[0..<2] = [0, 1]"
  by (simp add: numeral_2_eq_2)

lemma tbinop_run:
  "broadcast_shapes (shape a) (shape b) = Inr sh \<Longrightarrow>
   tbinop f a b s = (Inr (fresh (length s) sh),
     s @ [map (\<lambda>idx. f (tget s a (bindex (shape a) idx)) (tget s b (bindex (shape b) idx)))
            (indices sh)])"
  by (simp add: tbinop_def new_tensor_run)

lemma valid_fresh1: "valid (s @ [map g (indices sh)]) (fresh (length s) sh)"
  by (rule valid_fresh)

lemma tget_fresh1:
  "valid_index sh idx \<Longrightarrow> tget (s @ [map g (indices sh)]) (fresh (length s) sh) idx = g idx"
  by (rule tget_fresh)

lemma dist2bbox_ok:
  assumes sd: "shape d = [b, 4, A]" and vd: "length (strides d) = 3" "storage d < length s"
    and sa: "shape ap = [1, 2, A]" and va: "storage ap < length s"
  shows "\<exists>y s'. dist2bbox d ap xywh 1 s = (Inr y, s') \<and> prefix s s' \<and> shape y = [b, 4, A]
           \<and> valid s' y
           \<and> (\<forall>i<b. \<forall>c<4. \<forall>j<A. tget s' y [i, c, j]
                 = assemble_box xywh (tget s ap [0, 0, j]) (tget s ap [0, 1, j])
                     (tget s d [i, 0, j]) (tget s d [i, 1, j]) (tget s d [i, 2, j])
                     (tget s d [i, 3, j]) ! c)"
proof -
  obtain d0 d1 d2 where std: "strides d = [d0, d1, d2]"
    using strides3 [OF vd(1)] by blast
  define lt where "lt = narrow d 1 0 2"
  define rb where "rb = narrow d 1 2 2"
  have slt: "shape lt = [b, 2, A]" and srb: "shape rb = [b, 2, A]"
    by (simp_all add: lt_def rb_def narrow_def sd)
  have elt: "tget s lt [i, k, j] = tget s d [i, k, j]"
    and erb: "tget s rb [i, k, j] = tget s d [i, 2 + k, j]" for i k j
    by (simp_all add: lt_def rb_def narrow_def tget_def address_def std algebra_simps mult_2_right)
  have sp: "torch_split d 2 1 = Inr [lt, rb]"
    by (simp add: torch_split_def sd upt_0_2 lt_def rb_def)
  have bs1: "broadcast_shapes [1, 2, A] [b, 2, A] = Inr [b, 2, A]"
    by (simp add: broadcast_shapes_def pad_shape_def bdims_same)
  have bs2: "broadcast_shapes [b, 2, A] [b, 2, A] = Inr [b, 2, A]"
    by (simp add: broadcast_shapes_def pad_shape_def bdims_same)
  define f1 where "f1 = (\<lambda>idx. fsub (tget s ap (bindex [1, 2, A] idx)) (tget s lt (bindex [b, 2, A] idx)))"
  define x1y1 where "x1y1 = fresh (length s) [b, 2, A]"
  define s1 where "s1 = s @ [map f1 (indices [b, 2, A])]"
  have 1: "tensor_sub ap lt s = (Inr x1y1, s1)"
    unfolding tensor_sub_def using tbinop_run [of ap lt "[b, 2, A]" fsub s] bs1
    by (simp add: sa slt x1y1_def s1_def f1_def)
  define f2 where "f2 = (\<lambda>idx. fadd (tget s1 ap (bindex [1, 2, A] idx)) (tget s1 rb (bindex [b, 2, A] idx)))"
  define x2y2 where "x2y2 = fresh (length s1) [b, 2, A]"
  define s2 where "s2 = s1 @ [map f2 (indices [b, 2, A])]"
  have 2: "tensor_add ap rb s1 = (Inr x2y2, s2)"
    unfolding tensor_add_def using tbinop_run [of ap rb "[b, 2, A]" fadd s1] bs1
    by (simp add: sa srb x2y2_def s2_def f2_def)
  have p1: "prefix s s1" and p2: "prefix s1 s2" and p02: "prefix s s2"
    by (simp_all add: s1_def s2_def)
  have ls: "storage d < length s" "storage ap < length s"
    using vd va by simp_all
  have slt': "storage lt < length s" and srb': "storage rb < length s"
    using ls by (simp_all add: lt_def rb_def narrow_def)
  have e1: "tget s1 x1y1 [i, k, j] = fsub (tget s ap [0, k, j]) (tget s d [i, k, j])"
    if "i < b" "k < 2" "j < A" for i k j
  proof -
    have bj: "(if A = Suc 0 then 0 else j) = j" using that by auto
    have bi: "(if b = Suc 0 then 0 else i) = i" using that by auto
    have "tget s1 x1y1 [i, k, j] = f1 [i, k, j]"
      unfolding s1_def x1y1_def using that by (intro tget_fresh1) (simp add: valid_index3)
    then show ?thesis
      by (simp add: f1_def bindex_def bi bj elt)
  qed
  have e2: "tget s2 x2y2 [i, k, j] = fadd (tget s ap [0, k, j]) (tget s d [i, 2 + k, j])"
    if "i < b" "k < 2" "j < A" for i k j
  proof -
    have bj: "(if A = Suc 0 then 0 else j) = j" using that by auto
    have bi: "(if b = Suc 0 then 0 else i) = i" using that by auto
    have "tget s2 x2y2 [i, k, j] = f2 [i, k, j]"
      unfolding s2_def x2y2_def using that by (intro tget_fresh1) (simp add: valid_index3)
    then show ?thesis
      using tget_prefix [OF p1 ls(2)] tget_prefix [OF p1 srb']
      by (simp add: f2_def bindex_def bi bj erb)
  qed
  have e1': "tget s2 x1y1 [i, k, j] = fsub (tget s ap [0, k, j]) (tget s d [i, k, j])"
    if "i < b" "k < 2" "j < A" for i k j
    using e1 [OF that] tget_prefix [OF p2, of x1y1] by (simp add: x1y1_def s1_def)
  have sc: "shape x1y1 = [b, 2, A]" "shape x2y2 = [b, 2, A]"
    by (simp_all add: x1y1_def x2y2_def)
  have c4: "c = 0 \<or> c = 1 \<or> c = 2 \<or> c = 3" if "c < 4" for c :: nat
    using that by auto
  show ?thesis
  proof (cases xywh)
    case False
    define y where "y = fresh (length s2) [b, 4, A]"
    define s3 where "s3 = s2 @ [map (cat_entry s2 [x1y1, x2y2] 1) (indices [b, 4, A])]"
    have 3: "torch_cat [x1y1, x2y2] 1 s2 = (Inr y, s3)"
      by (simp add: torch_cat_def x1y1_def x2y2_def new_tensor_run y_def s3_def)
    have res: "dist2bbox d ap xywh 1 s = (Inr y, s3)"
      using False
      by (simp add: dist2bbox_def sp sbind_Inr [of "tensor_sub ap lt", OF 1]
          sbind_Inr [of "tensor_add ap rb", OF 2] 3)
    have ent: "tget s3 y [i, c, j]
        = assemble_box xywh (tget s ap [0, 0, j]) (tget s ap [0, 1, j])
            (tget s d [i, 0, j]) (tget s d [i, 1, j]) (tget s d [i, 2, j]) (tget s d [i, 3, j]) ! c"
      if i: "i < b" and c: "c < 4" and j: "j < A" for i c j
    proof -
      have "tget s3 y [i, c, j] = cat_entry s2 [x1y1, x2y2] 1 [i, c, j]"
        unfolding s3_def y_def using i c j by (intro tget_fresh1) (simp add: valid_index3)
      then show ?thesis
        using c4 [OF c] False i j
        by (auto simp: sc e1' e2 assemble_box_def Let_def eval_nat_numeral)
    qed
    have vy: "valid s3 y" unfolding s3_def y_def by (rule valid_fresh1)
    have pre: "prefix s s3" by (simp add: s3_def s2_def s1_def)
    have shy: "shape y = [b, 4, A]" by (simp add: y_def)
    show ?thesis
      using res pre shy vy ent by (intro exI [of _ y] exI [of _ s3]) simp
  next
    case True
    define f3 where "f3 = (\<lambda>idx. fadd (tget s2 x1y1 (bindex [b, 2, A] idx)) (tget s2 x2y2 (bindex [b, 2, A] idx)))"
    define sm where "sm = fresh (length s2) [b, 2, A]"
    define s3 where "s3 = s2 @ [map f3 (indices [b, 2, A])]"
    have 3: "tensor_add x1y1 x2y2 s2 = (Inr sm, s3)"
      unfolding tensor_add_def using tbinop_run [of x1y1 x2y2 "[b, 2, A]" fadd s2] bs2
      by (simp add: x1y1_def x2y2_def sm_def s3_def f3_def)
    define f4 where "f4 = (\<lambda>idx. fdiv (tget s3 sm idx) (Fin 2))"
    define c_xy where "c_xy = fresh (length s3) [b, 2, A]"
    define s4 where "s4 = s3 @ [map f4 (indices [b, 2, A])]"
    have 4: "tensor_div_scalar sm (Fin 2) s3 = (Inr c_xy, s4)"
      by (simp add: tensor_div_scalar_def new_tensor_run sm_def c_xy_def s4_def f4_def)
    define f5 where "f5 = (\<lambda>idx. fsub (tget s4 x2y2 (bindex [b, 2, A] idx)) (tget s4 x1y1 (bindex [b, 2, A] idx)))"
    define wh where "wh = fresh (length s4) [b, 2, A]"
    define s5 where "s5 = s4 @ [map f5 (indices [b, 2, A])]"
    have 5: "tensor_sub x2y2 x1y1 s4 = (Inr wh, s5)"
      unfolding tensor_sub_def using tbinop_run [of x2y2 x1y1 "[b, 2, A]" fsub s4] bs2
      by (simp add: x1y1_def x2y2_def wh_def s5_def f5_def)
    define y where "y = fresh (length s5) [b, 4, A]"
    define s6 where "s6 = s5 @ [map (cat_entry s5 [c_xy, wh] 1) (indices [b, 4, A])]"
    have 6: "torch_cat [c_xy, wh] 1 s5 = (Inr y, s6)"
      by (simp add: torch_cat_def c_xy_def wh_def new_tensor_run y_def s6_def)
    have res: "dist2bbox d ap xywh 1 s = (Inr y, s6)"
      using True
      by (simp add: dist2bbox_def sp sbind_Inr [of "tensor_sub ap lt", OF 1]
          sbind_Inr [of "tensor_add ap rb", OF 2] sbind_Inr [of "tensor_add x1y1 x2y2", OF 3]
          sbind_Inr [of "tensor_div_scalar sm (Fin 2)", OF 4]
          sbind_Inr [of "tensor_sub x2y2 x1y1", OF 5] 6)
    have p24: "prefix s2 s4" and p35: "prefix s3 s5" and p45: "prefix s4 s5"
      by (simp_all add: s3_def s4_def s5_def)
    have st: "storage x1y1 < length s2" "storage x2y2 < length s2"
      by (simp_all add: x1y1_def x2y2_def s2_def s1_def)
    have e3: "tget s4 c_xy [i, k, j]
        = fdiv (fadd (tget s2 x1y1 [i, k, j]) (tget s2 x2y2 [i, k, j])) (Fin 2)"
      if "i < b" "k < 2" "j < A" for i k j
    proof -
      have bj: "(if A = Suc 0 then 0 else j) = j" using that by auto
      have bi: "(if b = Suc 0 then 0 else i) = i" using that by auto
      have "tget s4 c_xy [i, k, j] = f4 [i, k, j]"
        unfolding s4_def c_xy_def using that by (intro tget_fresh1) (simp add: valid_index3)
      moreover have "tget s3 sm [i, k, j] = f3 [i, k, j]"
        unfolding s3_def sm_def using that by (intro tget_fresh1) (simp add: valid_index3)
      ultimately show ?thesis
        by (simp add: f4_def f3_def bindex_def bi bj)
    qed
    have e4: "tget s5 wh [i, k, j] = fsub (tget s2 x2y2 [i, k, j]) (tget s2 x1y1 [i, k, j])"
      if "i < b" "k < 2" "j < A" for i k j
    proof -
      have bj: "(if A = Suc 0 then 0 else j) = j" using that by auto
      have bi: "(if b = Suc 0 then 0 else i) = i" using that by auto
      have "tget s5 wh [i, k, j] = f5 [i, k, j]"
        unfolding s5_def wh_def using that by (intro tget_fresh1) (simp add: valid_index3)
      then show ?thesis
        using tget_prefix [OF p24 st(1)] tget_prefix [OF p24 st(2)]
        by (simp add: f5_def bindex_def bi bj)
    qed
    have sc': "shape c_xy = [b, 2, A]" "shape wh = [b, 2, A]"
      by (simp_all add: c_xy_def wh_def)
    have e3': "tget s5 c_xy [i, k, j]
        = fdiv (fadd (tget s2 x1y1 [i, k, j]) (tget s2 x2y2 [i, k, j])) (Fin 2)"
      if "i < b" "k < 2" "j < A" for i k j
      using e3 [OF that] tget_prefix [OF p45, of c_xy] by (simp add: c_xy_def s4_def)
    have ent: "tget s6 y [i, c, j]
        = assemble_box xywh (tget s ap [0, 0, j]) (tget s ap [0, 1, j])
            (tget s d [i, 0, j]) (tget s d [i, 1, j]) (tget s d [i, 2, j]) (tget s d [i, 3, j]) ! c"
      if i: "i < b" and c: "c < 4" and j: "j < A" for i c j
    proof -
      have "tget s6 y [i, c, j] = cat_entry s5 [c_xy, wh] 1 [i, c, j]"
        unfolding s6_def y_def using i c j by (intro tget_fresh1) (simp add: valid_index3)
      then show ?thesis
        using c4 [OF c] True i j
        by (auto simp: sc' e1' e2 e3' e4 assemble_box_def Let_def eval_nat_numeral)
    qed
    have vy: "valid s6 y" unfolding s6_def y_def by (rule valid_fresh1)
    have pre: "prefix s s6" by (simp add: s6_def s5_def s4_def s3_def s2_def s1_def)
    have shy: "shape y = [b, 4, A]" by (simp add: y_def)
    show ?thesis
      using res pre shy vy ent by (intro exI [of _ y] exI [of _ s6]) simp
  qed
qed


lemma level_shape:
  assumes "length (shape t) = 4" "shape t ! 0 = b" "shape t ! 1 = 144"
  shows "shape t = [b, 144, shape t ! 2, shape t ! 3]"
proof -
  obtain p q r u where sh: "shape t = [p, q, r, u]"
    using assms(1) by (auto simp: length_Suc_conv eval_nat_numeral)
  show ?thesis
    using assms(2,3) by (simp add: sh)
qed

lemma flatten_level_ok:
  assumes ok: "raw_ok b s x" and t: "t \<in> set x"
  shows "\<exists>l. flatten_level x t = Inr l \<and> shape l = [b, 144, level_slots t]
      \<and> storage l = storage t \<and> length (strides l) = 3
      \<and> (\<forall>s' i ch j. i < b \<longrightarrow> ch < 144 \<longrightarrow> j < level_slots t \<longrightarrow>
            tget s' l [i, ch, j] = tget s' t [i, ch, j div shape t ! 3, j mod shape t ! 3])"
proof -
  from ok obtain x0 xs where x: "x = x0 # xs"
    by (cases x) (auto simp: raw_ok_def)
  have b: "0 < b" using ok by (simp add: raw_ok_def)
  have "shape x0 = [b, 144, shape x0 ! 2, shape x0 ! 3]"
    using ok x by (intro level_shape) (auto simp: raw_ok_def)
  then obtain r where s0: "shape x0 = b # r" by simp
  define h where "h = shape t ! 2"
  define w where "w = shape t ! 3"
  have sh: "shape t = [b, 144, h, w]"
    unfolding h_def w_def using ok t by (intro level_shape) (auto simp: raw_ok_def)
  have h: "0 < h" and w: "0 < w" and adj: "rows_adjacent t" and v: "valid s t"
    using ok t by (auto simp: raw_ok_def h_def w_def)
  have "length (strides t) = 4"
    using v by (simp add: valid_def sh)
  then obtain s0 s1 s2 s3 where st: "strides t = [s0, s1, s2, s3]"
    using strides4 by blast
  have "h = 1 \<or> w = 1 \<or> s2 = w * s3"
    using adj by (simp add: rows_adjacent_def sh st)
  from view_level [OF b h w this, of s0 s1]
  obtain st0 st2 where cs: "compute_stride [b, 144, h, w] [s0, s1, s2, s3] [b, 144, h * w]
      = Some [st0, s1, st2]" and st0: "b \<noteq> 1 \<longrightarrow> st0 = s0"
    and st2: "\<forall>j < h * w. j * st2 = (j div w) * s2 + (j mod w) * s3"
    by blast
  define l where "l = t\<lparr>shape := [b, 144, h * w], strides := [st0, s1, st2]\<rparr>"
  have n: "numel t = b * 144 * (h * w)"
    by (simp add: numel_def sh)
  have "infer_size (map int [b, 144] @ [- 1]) (numel t) = Inr ([b, 144] @ [numel t div prod_list [b, 144]])"
    using b by (intro infer_size_last) (simp_all add: n)
  then have i: "infer_size [int b, 144, - 1] (numel t) = Inr [b, 144, h * w]"
    using b by (simp add: n)
  have tv: "torch_view t [int b, 144, - 1] = Inr l"
    using cs by (simp add: torch_view_def i sh st l_def)
  have fl: "flatten_level x t = Inr l"
    by (simp add: flatten_level_def x s0 tv)
  have ent: "tget s' l [i, ch, j] = tget s' t [i, ch, j div w, j mod w]"
    if "i < b" "ch < 144" "j < h * w" for s' i ch j
  proof -
    have 1: "i * st0 = i * s0" using st0 that(1) by (cases "b = 1") auto
    have 2: "j * st2 = (j div w) * s2 + (j mod w) * s3" using st2 that(3) by blast
    have "address l [i, ch, j] = address t [i, ch, j div w, j mod w]"
      by (simp add: address_def l_def st 1 2)
    then show ?thesis
      by (simp add: tget_def l_def)
  qed
  show ?thesis
    using fl ent by (intro exI [of _ l]) (simp add: l_def level_slots_def sh)
qed

lemma emap_all2:
  "(\<And>a. a \<in> set as \<Longrightarrow> \<exists>b. f a = Inr b \<and> P a b)
    \<Longrightarrow> \<exists>bs. emap f as = Inr bs \<and> list_all2 P as bs"
proof (induction as)
  case Nil
  then show ?case by simp
next
  case (Cons a as)
  obtain b where b: "f a = Inr b" "P a b" using Cons.prems by auto
  obtain bs where bs: "emap f as = Inr bs" "list_all2 P as bs"
    using Cons.IH Cons.prems by auto
  show ?case
    using b bs by (intro exI [of _ "b # bs"]) simp
qed

lemma cat_entry_levels:
  assumes "list_all2 (level_view b) ts ls" and "j < slots ts" and "i < b" and "ch < 144"
  shows "cat_entry s ls 2 [i, ch, j] = raw_logit s ts i ch j"
  using assms
proof (induction ts ls arbitrary: j rule: list_all2_induct)
  case Nil
  then show ?case by simp
next
  case (Cons t ts l ls)
  have sl: "shape l = [b, 144, level_slots t]"
    using Cons.hyps(1) by (simp add: level_view_def)
  show ?case
  proof (cases "j < level_slots t")
    case True
    then have "tget s l [i, ch, j] = tget s t [i, ch, j div shape t ! 3, j mod shape t ! 3]"
      using Cons.hyps(1) Cons.prems(2,3) by (simp add: level_view_def)
    then show ?thesis
      using True by (simp add: sl)
  next
    case False
    then have "j - level_slots t < slots ts"
      using Cons.prems(1) by (simp add: slots_def)
    then have "cat_entry s ls 2 [i, ch, j - level_slots t] = raw_logit s ts i ch (j - level_slots t)"
      using Cons.prems(2,3) by (intro Cons.IH) auto
    then show ?thesis
      using False by (simp add: sl)
  qed
qed

lemma levels_shapes:
  assumes "list_all2 (level_view b) ts ls"
  shows "sum_list (map (\<lambda>u. shape u ! 2) ls) = slots ts"
    and "\<forall>u \<in> set ls. length (shape u) = 3 \<and> (shape u)[2 := 0] = [b, 144, 0]"
  using assms
  by (induction ts ls rule: list_all2_induct) (auto simp: slots_def level_view_def)

lemma raw_logit_prefix:
  assumes "prefix s s'" and "\<forall>t \<in> set ts. storage t < length s"
  shows "raw_logit s' ts i ch j = raw_logit s ts i ch j"
  using assms(2)
  by (induction ts arbitrary: j) (simp_all add: tget_prefix [OF assms(1)])

lemma torch_tensor_run:
  "torch_tensor a s = (Inr (fresh (length s) (dims a)), s @ [map (aget a) (indices (dims a))])"
  by (simp add: torch_tensor_def new_tensor_run)

lemma post_process_head:
  assumes fa: "files e ''./anchors.npy'' = Some af"
    and fs: "files e ''./strides.npy'' = Some sf"
    and ok: "raw_ok b s x"
  shows "\<exists>dist cls anchors stride_t s'.
    prefix s s'
    \<and> shape dist = [b, 4, slots x] \<and> length (strides dist) = 3 \<and> storage dist < length s'
    \<and> shape cls = [b, 80, slots x] \<and> length (strides cls) = 3 \<and> storage cls < length s'
    \<and> shape anchors = dims af \<and> strides anchors = contiguous (dims af) \<and> offset anchors = 0
    \<and> storage anchors < length s'
    \<and> shape stride_t = dims sf \<and> storage stride_t < length s'
    \<and> (\<forall>idx. valid_index (dims af) idx \<longrightarrow> tget s' anchors idx = aget af idx)
    \<and> (\<forall>idx. valid_index (dims sf) idx \<longrightarrow> tget s' stride_t idx = aget sf idx)
    \<and> (\<forall>i<b. \<forall>sd<4. \<forall>j<slots x. tget s' dist [i, sd, j] = decoded_distance s x i sd j)
    \<and> (\<forall>i<b. \<forall>c<80. \<forall>j<slots x. tget s' cls [i, c, j] = raw_logit s x i (64 + c) j)
    \<and> post_process e x s =
       sbind (lift (torch_unsqueeze anchors 0)) (\<lambda>ap.
       sbind (dist2bbox dist ap True 1) (\<lambda>bb.
       sbind (tensor_mul bb stride_t) (\<lambda>dbox.
       sbind (torch_sigmoid cls) (\<lambda>sg.
       sbind (torch_cat [dbox, sg] 1) (\<lambda>y.
       lift (Inr (y, x))))))) s'"
proof -
  define A where "A = slots x"
  have b: "0 < b" using ok by (simp add: raw_ok_def)
  obtain x0 xs where x: "x = x0 # xs"
    using ok by (cases x) (auto simp: raw_ok_def)
  have "0 < level_slots x0"
    using ok x by (simp add: raw_ok_def level_slots_def)
  then have A: "0 < A"
    by (simp add: A_def slots_def x)
  define dfl where "dfl = \<lparr>conv_weight = fresh (length s) [1, 16, 1, 1], c1 = 16\<rparr>"
  define s1 where "s1 = s @ [map (\<lambda>k. Fin (real k)) [0..<16], map (\<lambda>k. Fin (real k)) [0..<16]]"
  have 1: "DFL_init (conv_init e) 16 s = (Inr dfl, s1)"
    by (simp add: DFL_init_16 dfl_def s1_def)
  define anchors where "anchors = fresh (length s1) (dims af)"
  define s2 where "s2 = s1 @ [map (aget af) (indices (dims af))]"
  have 2: "torch_tensor af s1 = (Inr anchors, s2)"
    by (simp add: torch_tensor_run anchors_def s2_def)
  define stride_t where "stride_t = fresh (length s2) (dims sf)"
  define s3 where "s3 = s2 @ [map (aget sf) (indices (dims sf))]"
  have 3: "torch_tensor sf s2 = (Inr stride_t, s3)"
    by (simp add: torch_tensor_run stride_t_def s3_def)
  obtain levels where 4: "emap (flatten_level x) x = Inr levels"
    and lv: "list_all2 (level_view b) x levels"
    using emap_all2 [of x "flatten_level x" "level_view b"] flatten_level_ok [OF ok]
    unfolding level_view_def by blast
  obtain l0 ls where levels: "levels = l0 # ls"
    using lv x by (cases levels) auto
  have sl0: "shape l0 = [b, 144, level_slots x0]"
    using lv by (simp add: x levels level_view_def)
  define c where "c = fresh (length s3) [b, 144, A]"
  define s4 where "s4 = s3 @ [map (cat_entry s3 levels 2) (indices [b, 144, A])]"
  have 5: "torch_cat levels 2 s3 = (Inr c, s4)"
    using levels_shapes [OF lv]
    by (simp add: torch_cat_def levels sl0 new_tensor_run c_def s4_def A_def)
  define box where "box = narrow c 1 0 64"
  define cls where "cls = narrow c 1 64 80"
  have 6: "torch_split_sizes c [64, 80] 1 = Inr [box, cls]"
    by (simp add: torch_split_sizes_def c_def box_def cls_def)
  have stc: "strides c = [144 * A, A, 1]"
    using A by (simp add: c_def)
  have sbox: "shape box = [b, 64, A]" and scls: "shape cls = [b, 80, A]"
    and lbox: "length (strides box) = 3" and lcls: "length (strides cls) = 3"
    by (simp_all add: box_def cls_def narrow_def c_def)
  have p01: "prefix s s1" and p03: "prefix s s3" and p04: "prefix s s4" and p14: "prefix s1 s4"
    and p24: "prefix s2 s4" and p34: "prefix s3 s4"
    by (simp_all add: s1_def s2_def s3_def s4_def)
  have stx: "\<forall>t \<in> set x. storage t < length s"
    using ok by (simp add: raw_ok_def valid_def)
  have ec: "tget s4 c [i, ch, j] = raw_logit s x i ch j" if "i < b" "ch < 144" "j < A" for i ch j
  proof -
    have "tget s4 c [i, ch, j] = cat_entry s3 levels 2 [i, ch, j]"
      unfolding s4_def c_def using that by (intro tget_fresh1) (simp add: valid_index3)
    also have "\<dots> = raw_logit s3 x i ch j"
      using lv that by (intro cat_entry_levels) (simp_all add: A_def)
    also have "\<dots> = raw_logit s x i ch j"
      using p03 stx by (rule raw_logit_prefix)
    finally show ?thesis .
  qed
  have ebox: "tget s4 box [i, ch, j] = raw_logit s x i ch j" if "i < b" "ch < 64" "j < A" for i ch j
  proof -
    have "tget s4 box [i, ch, j] = tget s4 c [i, ch, j]"
      by (simp add: box_def narrow_def tget_def address_def stc)
    then show ?thesis using that by (simp add: ec)
  qed
  have ecls: "tget s4 cls [i, ch, j] = raw_logit s x i (64 + ch) j"
    if "i < b" "ch < 80" "j < A" for i ch j
  proof -
    have "tget s4 cls [i, ch, j] = tget s4 c [i, 64 + ch, j]"
      by (simp add: cls_def narrow_def tget_def address_def stc algebra_simps)
    then show ?thesis using that by (simp add: ec)
  qed
  have wv: "storage (conv_weight dfl) < length s4"
    by (simp add: dfl_def s4_def s3_def s2_def s1_def)
  have we: "tget s4 (conv_weight dfl) [0, k, 0, 0] = Fin (real k)" if "k < 16" for k
  proof -
    have "tget s1 (conv_weight dfl) [0, k, 0, 0] = map (\<lambda>k. Fin (real k)) [0..<16] ! k"
      by (simp add: dfl_def s1_def tget_def address_def nth_append)
    then have "tget s1 (conv_weight dfl) [0, k, 0, 0] = Fin (real k)"
      using that by simp
    moreover have "tget s4 (conv_weight dfl) [0, k, 0, 0] = tget s1 (conv_weight dfl) [0, k, 0, 0]"
      using p14 by (rule tget_prefix) (simp add: dfl_def s1_def)
    ultimately show ?thesis by simp
  qed
  obtain dist s5 where d: "DFL_forward dfl box s4 = (Inr dist, s5)" "prefix s4 s5"
    "shape dist = [b, 4, A]" "valid s5 dist"
    and ed0: "\<forall>i<b. \<forall>sd<4. \<forall>j<A. tget s5 dist [i, sd, j] = expected_bin (bin_logits s4 box i sd j)"
    using DFL_forward_ok [of dfl s4 box b A, OF _ wv we _ sbox lbox b A]
    by (auto simp: dfl_def)
  have ed: "tget s5 dist [i, sd, j] = decoded_distance s x i sd j"
    if "i < b" "sd < 4" "j < A" for i sd j
  proof -
    have mb: "map (\<lambda>k. tget s4 box [i, 16 * sd + k, j]) [0..<16]
        = map (\<lambda>k. raw_logit s x i (16 * sd + k) j) [0..<16]"
      using that by (intro map_cong refl ebox) auto
    show ?thesis
      using ed0 that by (simp add: decoded_distance_def bin_logits_def mb)
  qed
  have p05: "prefix s s5" using p04 d(2) by (rule prefix_order.trans)
  have ec5: "tget s5 cls [i, ch, j] = raw_logit s x i (64 + ch) j"
    if "i < b" "ch < 80" "j < A" for i ch j
  proof -
    have "tget s5 cls [i, ch, j] = tget s4 cls [i, ch, j]"
      using d(2) by (rule tget_prefix) (simp add: cls_def narrow_def c_def s4_def)
    then show ?thesis using that by (simp add: ecls)
  qed
  have ea: "tget s5 anchors idx = aget af idx" if "valid_index (dims af) idx" for idx
  proof -
    have "tget s2 anchors idx = aget af idx"
      unfolding s2_def anchors_def using that by (rule tget_fresh1)
    moreover have "tget s5 anchors idx = tget s2 anchors idx"
      using prefix_order.trans [OF p24 d(2)] by (rule tget_prefix) (simp add: anchors_def s2_def)
    ultimately show ?thesis by simp
  qed
  have es: "tget s5 stride_t idx = aget sf idx" if "valid_index (dims sf) idx" for idx
  proof -
    have "tget s3 stride_t idx = aget sf idx"
      unfolding s3_def stride_t_def using that by (rule tget_fresh1)
    moreover have "tget s5 stride_t idx = tget s3 stride_t idx"
      using prefix_order.trans [OF p34 d(2)] by (rule tget_prefix) (simp add: stride_t_def s3_def)
    ultimately show ?thesis by simp
  qed
  have l5: "length s4 \<le> length s5"
    using d(2) by (rule prefix_length_le)
  have sts: "storage cls < length s5" "storage anchors < length s5" "storage stride_t < length s5"
    using l5 by (simp_all add: cls_def narrow_def c_def anchors_def stride_t_def s4_def s3_def s2_def)
  have pp: "post_process e x s =
       sbind (lift (torch_unsqueeze anchors 0)) (\<lambda>ap.
       sbind (dist2bbox dist ap True 1) (\<lambda>bb.
       sbind (tensor_mul bb stride_t) (\<lambda>dbox.
       sbind (torch_sigmoid cls) (\<lambda>sg.
       sbind (torch_cat [dbox, sg] 1) (\<lambda>y.
       lift (Inr (y, x))))))) s5"
    by (simp add: post_process_def np_load_def fa fs 4 6
        sbind_Inr [of "DFL_init (conv_init e) 16", OF 1]
        sbind_Inr [of "torch_tensor af", OF 2] sbind_Inr [of "torch_tensor sf", OF 3]
        sbind_Inr [of "torch_cat levels 2", OF 5]
        sbind_Inr [of "DFL_forward dfl box", OF d(1)])
  have vd: "length (strides dist) = 3" "storage dist < length s5"
    using d(3,4) by (simp_all add: valid_def)
  have an: "shape anchors = dims af" "strides anchors = contiguous (dims af)" "offset anchors = 0"
    and sn: "shape stride_t = dims sf"
    by (simp_all add: anchors_def stride_t_def)
  have ea': "\<forall>idx. valid_index (dims af) idx \<longrightarrow> tget s5 anchors idx = aget af idx"
    and es': "\<forall>idx. valid_index (dims sf) idx \<longrightarrow> tget s5 stride_t idx = aget sf idx"
    and ed': "\<forall>i<b. \<forall>sd<4. \<forall>j<slots x. tget s5 dist [i, sd, j] = decoded_distance s x i sd j"
    and ec': "\<forall>i<b. \<forall>c<80. \<forall>j<slots x. tget s5 cls [i, c, j] = raw_logit s x i (64 + c) j"
    using ea es ed ec5 by (simp_all add: A_def)
  note f = p05 d(3) [unfolded A_def] vd scls [unfolded A_def] lcls sts(1) an sts(2) sn sts(3)
    ea' es' ed' ec' pp
  show ?thesis
    by (intro exI [of _ dist] exI [of _ cls] exI [of _ anchors] exI [of _ stride_t] exI [of _ s5]
        conjI) (rule f)+
qed


lemma length_assemble_box [simp]: "length (assemble_box xywh ax ay l t r b) = 4"
  by (simp add: assemble_box_def Let_def)

lemma post_process_ok:
  assumes fa: "files e ''./anchors.npy'' = Some af"
    and fs: "files e ''./strides.npy'' = Some sf"
    and ok: "raw_ok b s x"
    and da: "dims af = [2, slots x]"
    and ds: "dims sf = [1, slots x]"
  shows "\<exists>y s'. post_process e x s = (Inr (y, x), s') \<and> prefix s s'
      \<and> shape y = [b, 84, slots x] \<and> valid s' y
      \<and> (\<forall>i<b. \<forall>j<slots x.
            (\<forall>c<4. tget s' y [i, c, j] = pixel_box af sf s x i j ! c)
          \<and> (\<forall>c<80. tget s' y [i, 4 + c, j] = sigmoid (raw_logit s x i (64 + c) j)))"
proof -
  define A where "A = slots x"
  obtain dist cls anchors stride_t s5 where p05: "prefix s s5"
    and dc: "shape dist = [b, 4, A]" "length (strides dist) = 3" "storage dist < length s5"
      "shape cls = [b, 80, A]" "length (strides cls) = 3" "storage cls < length s5"
    and an: "shape anchors = dims af" "strides anchors = contiguous (dims af)" "offset anchors = 0"
      "storage anchors < length s5"
    and sn: "shape stride_t = dims sf" "storage stride_t < length s5"
    and ea': "\<forall>idx. valid_index (dims af) idx \<longrightarrow> tget s5 anchors idx = aget af idx"
    and es': "\<forall>idx. valid_index (dims sf) idx \<longrightarrow> tget s5 stride_t idx = aget sf idx"
    and ed': "\<forall>i<b. \<forall>sd<4. \<forall>j<A. tget s5 dist [i, sd, j] = decoded_distance s x i sd j"
    and ec': "\<forall>i<b. \<forall>c<80. \<forall>j<A. tget s5 cls [i, c, j] = raw_logit s x i (64 + c) j"
    and pp: "post_process e x s =
       sbind (lift (torch_unsqueeze anchors 0)) (\<lambda>ap.
       sbind (dist2bbox dist ap True 1) (\<lambda>bb.
       sbind (tensor_mul bb stride_t) (\<lambda>dbox.
       sbind (torch_sigmoid cls) (\<lambda>sg.
       sbind (torch_cat [dbox, sg] 1) (\<lambda>y.
       lift (Inr (y, x))))))) s5"
    unfolding A_def using post_process_head [OF fa fs ok] by blast
  have ed: "tget s5 dist [i, sd, j] = decoded_distance s x i sd j" if "i < b" "sd < 4" "j < A" for i sd j
    using ed' that by blast
  have ec: "tget s5 cls [i, c, j] = raw_logit s x i (64 + c) j" if "i < b" "c < 80" "j < A" for i c j
    using ec' that by blast
  have ea: "tget s5 anchors [k, j] = aget af [k, j]" if "k < 2" "j < A" for k j
    using ea' that by (simp add: da A_def valid_index_def)
  have es: "tget s5 stride_t [0, j] = aget sf [0, j]" if "j < A" for j
    using es' that by (simp add: ds A_def valid_index_def)
  have sha: "shape anchors = [2, A]" "strides anchors = contiguous [2, A]" "offset anchors = 0"
    and shs: "shape stride_t = [1, A]"
    using an(1,2,3) sn(1) by (simp_all add: da ds A_def)
  define ap where "ap = anchors\<lparr>shape := [1, 2, A], strides := [2 * hd (contiguous [2, A]), hd (contiguous [2, A]), 1]\<rparr>"
  have 1: "torch_unsqueeze anchors 0 = Inr ap"
    by (simp add: torch_unsqueeze_def ap_def sha)
  have sap: "shape ap = [1, 2, A]" "storage ap < length s5"
    using an(4) by (simp_all add: ap_def)
  have eap: "tget s5 ap [0, k, j] = tget s5 anchors [k, j]" for k j
    by (simp add: ap_def tget_def address_def sha)
  obtain bb s6 where bb: "dist2bbox dist ap True 1 s5 = (Inr bb, s6)" "prefix s5 s6"
      "shape bb = [b, 4, A]" "valid s6 bb"
    and eb: "\<forall>i<b. \<forall>c<4. \<forall>j<A. tget s6 bb [i, c, j]
                 = assemble_box True (tget s5 ap [0, 0, j]) (tget s5 ap [0, 1, j])
                     (tget s5 dist [i, 0, j]) (tget s5 dist [i, 1, j]) (tget s5 dist [i, 2, j])
                     (tget s5 dist [i, 3, j]) ! c"
    using dist2bbox_ok [OF dc(1,2,3) sap, of True] by blast
  define fm where "fm = (\<lambda>idx. fmul (tget s6 bb (bindex [b, 4, A] idx)) (tget s6 stride_t (bindex [1, A] idx)))"
  define dbox where "dbox = fresh (length s6) [b, 4, A]"
  define s7 where "s7 = s6 @ [map fm (indices [b, 4, A])]"
  have bs: "broadcast_shapes [b, 4, A] [1, A] = Inr [b, 4, A]"
    by (simp add: broadcast_shapes_def pad_shape_def bdims_same)
  have 2: "tensor_mul bb stride_t s6 = (Inr dbox, s7)"
    unfolding tensor_mul_def using tbinop_run [of bb stride_t "[b, 4, A]" fmul s6] bs
    by (simp add: bb(3) shs dbox_def s7_def fm_def)
  define sg where "sg = fresh (length s7) [b, 80, A]"
  define s8 where "s8 = s7 @ [map (\<lambda>idx. sigmoid (tget s7 cls idx)) (indices [b, 80, A])]"
  have 3: "torch_sigmoid cls s7 = (Inr sg, s8)"
    by (simp add: torch_sigmoid_def new_tensor_run dc(4) sg_def s8_def)
  define y where "y = fresh (length s8) [b, 84, A]"
  define s9 where "s9 = s8 @ [map (cat_entry s8 [dbox, sg] 1) (indices [b, 84, A])]"
  have 4: "torch_cat [dbox, sg] 1 s8 = (Inr y, s9)"
    by (simp add: torch_cat_def dbox_def sg_def new_tensor_run y_def s9_def)
  have res: "post_process e x s = (Inr (y, x), s9)"
    by (simp add: pp 1 sbind_Inr [of "dist2bbox dist ap True 1", OF bb(1)]
        sbind_Inr [of "tensor_mul bb stride_t", OF 2] sbind_Inr [of "torch_sigmoid cls", OF 3]
        sbind_Inr [of "torch_cat [dbox, sg] 1", OF 4])
  have p67: "prefix s6 s7" and p78: "prefix s7 s8" and p69: "prefix s6 s9"
    by (simp_all add: s7_def s8_def s9_def)
  have p57: "prefix s5 s7" using bb(2) p67 by (rule prefix_order.trans)
  have pre: "prefix s s9"
    using p05 bb(2) p69 by (meson prefix_order.trans)
  have shd: "shape dbox = [b, 4, A]" and shg: "shape sg = [b, 80, A]"
    by (simp_all add: dbox_def sg_def)
  have ebox: "tget s9 y [i, c, j] = pixel_box af sf s x i j ! c"
    if i: "i < b" and c: "c < 4" and j: "j < A" for i c j
  proof -
    have bj: "(if A = Suc 0 then 0 else j) = j" using j by auto
    have bi: "(if b = Suc 0 then 0 else i) = i" using i by auto
    have "tget s9 y [i, c, j] = cat_entry s8 [dbox, sg] 1 [i, c, j]"
      unfolding s9_def y_def using i c j by (intro tget_fresh1) (simp add: valid_index3)
    also have "\<dots> = tget s8 dbox [i, c, j]"
      using c by (simp add: shd)
    also have "\<dots> = tget s7 dbox [i, c, j]"
      using p78 by (rule tget_prefix) (simp add: dbox_def s7_def)
    also have "\<dots> = fm [i, c, j]"
      unfolding s7_def dbox_def using i c j by (intro tget_fresh1) (simp add: valid_index3)
    also have "\<dots> = fmul (tget s6 bb [i, c, j]) (tget s6 stride_t [0, j])"
      by (simp add: fm_def bindex_def bi bj)
    also have "tget s6 stride_t [0, j] = tget s5 stride_t [0, j]"
      using bb(2) sn(2) by (rule tget_prefix)
    also have "tget s5 stride_t [0, j] = aget sf [0, j]"
      using j by (rule es)
    also have "tget s6 bb [i, c, j]
        = assemble_box True (aget af [0, j]) (aget af [1, j])
            (decoded_distance s x i 0 j) (decoded_distance s x i 1 j)
            (decoded_distance s x i 2 j) (decoded_distance s x i 3 j) ! c"
      using eb i c j by (simp add: eap ea ed)
    finally show ?thesis
      using c by (simp add: pixel_box_def)
  qed
  have ecls: "tget s9 y [i, 4 + c, j] = sigmoid (raw_logit s x i (64 + c) j)"
    if i: "i < b" and c: "c < 80" and j: "j < A" for i c j
  proof -
    have "tget s9 y [i, 4 + c, j] = cat_entry s8 [dbox, sg] 1 [i, 4 + c, j]"
      unfolding s9_def y_def using i c j by (intro tget_fresh1) (simp add: valid_index3)
    also have "\<dots> = tget s8 sg [i, c, j]"
      using c by (simp add: shd shg)
    also have "\<dots> = sigmoid (tget s7 cls [i, c, j])"
      unfolding s8_def sg_def using i c j by (intro tget_fresh1) (simp add: valid_index3)
    also have "tget s7 cls [i, c, j] = tget s5 cls [i, c, j]"
      using p57 dc(6) by (rule tget_prefix)
    finally show ?thesis
      using i c j by (simp add: ec)
  qed
  have shy: "shape y = [b, 84, slots x]" by (simp add: y_def A_def)
  have vy: "valid s9 y" unfolding s9_def y_def by (rule valid_fresh1)
  have ent: "\<forall>i<b. \<forall>j<slots x.
            (\<forall>c<4. tget s9 y [i, c, j] = pixel_box af sf s x i j ! c)
          \<and> (\<forall>c<80. tget s9 y [i, 4 + c, j] = sigmoid (raw_logit s x i (64 + c) j))"
    using ebox ecls by (simp add: A_def)
  note f = res pre shy vy ent
  show ?thesis
    by (intro exI [of _ y] exI [of _ s9] conjI) (rule f)+
qed

section \<open>Frame of the computations\<close>

lemma extends_lift [intro!, simp]: "extends (lift r)"
  by (simp add: extends_def)

lemma extends_new_tensor [intro!, simp]: "extends (new_tensor sh f)"
  by (simp add: extends_def new_tensor_def)

lemma extends_sbind [intro!]:
  assumes "extends m" and "\<And>v. extends (f v)"
  shows "extends (sbind m f)"
proof -
  have "prefix s (snd (sbind m f s))" for s
  proof (cases "m s")
    case (Pair r s')
    have 1: "prefix s s'" using assms(1) Pair by (auto simp: extends_def dest: spec [of _ s])
    show ?thesis
    proof (cases r)
      case (Inl e)
      then show ?thesis using Pair 1 by (simp add: sbind_def)
    next
      case (Inr v)
      have "prefix s' (snd (f v s'))" using assms(2) by (simp add: extends_def)
      then show ?thesis using Pair Inr 1 by (auto simp: sbind_def)
    qed
  qed
  then show ?thesis by (simp add: extends_def)
qed

lemma extendsD: "extends m \<Longrightarrow> m s = (r, s') \<Longrightarrow> prefix s s'"
  by (auto simp: extends_def dest: spec [of _ s])

lemma extends_torch_softmax [intro!, simp]: "extends (torch_softmax t d)"
  by (auto simp: torch_softmax_def)

lemma extends_conv2d [intro!, simp]: "extends (conv2d w x)"
  by (auto simp: conv2d_def split: list.splits)

lemma extends_tbinop [intro!, simp]: "extends (tbinop f a b)"
  by (auto simp: tbinop_def)

lemma extends_tensor_ops [intro!, simp]:
  "extends (tensor_add a b)" "extends (tensor_sub a b)" "extends (tensor_mul a b)"
  "extends (tensor_div_scalar a c)" "extends (torch_sigmoid a)" "extends (torch_arange n)"
  "extends (torch_tensor arr)" "extends (Conv2d w0 n)"
  by (simp_all add: tensor_add_def tensor_sub_def tensor_mul_def tensor_div_scalar_def
      torch_sigmoid_def torch_arange_def torch_tensor_def Conv2d_def)

lemma extends_torch_cat [intro!, simp]: "extends (torch_cat ts d)"
  by (auto simp: torch_cat_def split: list.splits)

lemma extends_DFL_forward [intro!, simp]: "extends (DFL_forward m x)"
  by (auto simp: DFL_forward_def split: list.splits)

lemma extends_dist2bbox [intro!, simp]: "extends (dist2bbox d ap xywh dm)"
  by (auto simp: dist2bbox_def split: list.splits)

lemma extends_DFL_init_16 [intro!, simp]: "extends (DFL_init w0 16)"
  by (simp add: extends_def DFL_init_16)

lemma extends_post_process: "extends (post_process e x)"
  by (auto simp: post_process_def split: list.splits)

lemma yields_lift_Inr [intro!]: "P v \<Longrightarrow> yields P (lift (Inr v))"
  by (simp add: yields_def)

lemma yields_lift_Inl [intro!, simp]: "yields P (lift (Inl e))"
  by (simp add: yields_def)

lemma yields_sbind [intro!]: "(\<And>v. yields P (f v)) \<Longrightarrow> yields P (sbind m f)"
  by (auto simp: yields_def sbind_def split: prod.splits sum.splits)

lemma yields_post_process: "yields (\<lambda>r. snd r = x) (post_process e x)"
  by (auto simp: post_process_def split: list.splits)

text \<open>
  An assignment into a tensor does not extend the store: it changes the storage of its
  target.
\<close>

lemma assign_all_overwrites:
  "assign_all example_pair example_one example_pair_store = (Inr (), [[Fin 1, Fin 1], [Fin 1]])"
  by (simp add: assign_all_def example_pair_def example_one_def example_pair_store_def
      broadcast_shapes_def pad_shape_def indices.simps bindex_def tget_def address_def upt_rec)

lemma assign_all_not_extends: "\<not> extends (assign_all example_pair example_one)"
proof
  assume "extends (assign_all example_pair example_one)"
  then have "prefix example_pair_store [[Fin 1, Fin 1], [Fin 1]]"
    using assign_all_overwrites by (rule extendsD)
  then show False
    by (simp add: example_pair_store_def)
qed

lemma sbind_DFL_init_16:
  "sbind (DFL_init w0 16) f s
    = f \<lparr>conv_weight = fresh (length s) [1, 16, 1, 1], c1 = 16\<rparr>
        (s @ [map (\<lambda>k. Fin (real k)) [0..<16], map (\<lambda>k. Fin (real k)) [0..<16]])"
  by (simp add: sbind_def DFL_init_16)

lemma DFL_weight:
  assumes "DFL_init w0 16 s0 = (Inr m, s1)" and "prefix s1 s"
  shows "shape (conv_weight m) = [1, 16, 1, 1]" and "storage (conv_weight m) < length s"
    and "c1 m = 16" and "k < 16 \<Longrightarrow> tget s (conv_weight m) [0, k, 0, 0] = Fin (real k)"
proof -
  from assms(1) have m: "m = \<lparr>conv_weight = fresh (length s0) [1, 16, 1, 1], c1 = 16\<rparr>"
    and s1: "s1 = s0 @ [map (\<lambda>k. Fin (real k)) [0..<16], map (\<lambda>k. Fin (real k)) [0..<16]]"
    by (simp_all add: DFL_init_16)
  show "shape (conv_weight m) = [1, 16, 1, 1]" and "c1 m = 16"
    by (simp_all add: m)
  have l: "storage (conv_weight m) < length s1"
    by (simp add: m s1)
  then show "storage (conv_weight m) < length s"
    using prefix_length_le [OF assms(2)] by simp
  assume k: "k < 16"
  have "tget s1 (conv_weight m) [0, k, 0, 0] = map (\<lambda>k. Fin (real k)) [0..<16] ! k"
    by (simp add: m s1 tget_def address_def nth_append)
  then have "tget s1 (conv_weight m) [0, k, 0, 0] = Fin (real k)"
    using k by simp
  then show "tget s (conv_weight m) [0, k, 0, 0] = Fin (real k)"
    using tget_prefix [OF assms(2) l] by simp
qed

section \<open>The example inputs are well formed\<close>

lemma valid_contiguous:
  assumes "storage t < length s" and "strides t = contiguous (shape t)"
    and "offset t + prod_list (shape t) \<le> length (s ! storage t)"
  shows "valid s t"
proof -
  have "address t idx < length (s ! storage t)" if "valid_index (shape t) idx" for idx
    using flat_index_less [OF that] assms(3) by (simp add: address_def assms(2) dot_contiguous that)
  then show ?thesis
    using assms(1,2) by (simp add: valid_def list_all_iff set_indices)
qed

lemma example_raw_ok: "raw_ok 1 example_store example_raw"
  by (simp add: raw_ok_def example_raw_def example_store_def rows_adjacent_def valid_contiguous)

lemma example_slots: "slots example_raw = 1"
  by (simp add: slots_def level_slots_def example_raw_def)

lemma example_files:
  "files example_env ''./anchors.npy'' = Some example_anchors"
  "files example_env ''./strides.npy'' = Some example_strides"
  by (simp_all add: example_env_def)

lemma example_tables:
  "table_ok 2 (slots example_raw) example_anchors" "table_ok 1 (slots example_raw) example_strides"
  by (simp_all add: table_ok_def wf_def example_anchors_def example_strides_def example_slots)

lemma example_logits_valid: "valid (example_logits_store @ bs) example_logits"
  by (rule valid_contiguous) (simp_all add: example_logits_def example_logits_store_def)

section \<open>Properties of the decoding pipeline\<close>

subsection \<open>Distribution decoder\<close>

text \<open>
  \<^verbatim>\<open>DFL.forward\<close> unpacks the shape of its argument into three names, so a tensor of four
  dimensions \<open>[batch, 4, 16, numAnchors]\<close> is refused with a \<^verbatim>\<open>ValueError\<close> before any
  decoding.
\<close>

theorem DFL_forward_rank4_counterexample:
  "\<exists>m s. DFL_init (\<lambda>k. Fin 0) 16 example_logits_store = (Inr m, s)
     \<and> valid s (example_logits\<lparr>shape := [1, 4, 16, 1], strides := [64, 16, 1, 1]\<rparr>)
     \<and> DFL_forward m (example_logits\<lparr>shape := [1, 4, 16, 1], strides := [64, 16, 1, 1]\<rparr>) s
         = (Inl ValueError, s)"
  by (simp add: DFL_init_16 DFL_forward_def valid_contiguous example_logits_def
      example_logits_store_def)

text \<open>
  C1, amended. For every input tensor of shape \<open>[batch, 64, numAnchors]\<close> with at least
  one batch item and one anchor, whatever its strides, which \<^verbatim>\<open>DFL.forward\<close> itself views
  as \<open>[batch, 4, 16, numAnchors]\<close> (bin \<open>k\<close> of side \<open>sd\<close> is channel \<open>16 * sd + k\<close>), the
  decoder returns a new tensor of shape \<open>[batch, 4, numAnchors]\<close> whose entry for a side and
  an anchor is the dot product of the bin indices \<open>0..15\<close> with the softmax of the sixteen
  bin logits of that side and anchor. The decoder \<open>m\<close> has been built by \<^verbatim>\<open>DFL(16)\<close>, and
  the store has only been extended since.
\<close>

theorem DFL_forward_expected_bin:
  assumes "DFL_init w0 16 s0 = (Inr m, s1)" and "prefix s1 s"
    and "shape x = [b, 64, a]" and "valid s x" and "0 < b" and "0 < a"
  shows "\<exists>y s'. DFL_forward m x s = (Inr y, s') \<and> prefix s s' \<and> shape y = [b, 4, a]
           \<and> valid s' y
           \<and> (\<forall>i<b. \<forall>sd<4. \<forall>j<a. tget s' y [i, sd, j] = expected_bin (bin_logits s x i sd j))"
proof -
  note w = DFL_weight [OF assms(1,2)]
  have "length (strides x) = 3"
    using assms(3,4) by (simp add: valid_def)
  with w show ?thesis
    using assms(3,5,6) by (intro DFL_forward_ok) simp_all
qed

theorem DFL_forward_expected_bin_witness:
  "\<exists>m s y s'. DFL_init (\<lambda>k. Fin 0) 16 example_logits_store = (Inr m, s)
      \<and> DFL_forward m example_logits s = (Inr y, s') \<and> shape y = [1, 4, 1]
      \<and> (\<forall>sd<4. tget s' y [0, sd, 0] = expected_bin (bin_logits s example_logits 0 sd 0))"
proof -
  obtain m s where m: "DFL_init (\<lambda>k. Fin 0) 16 example_logits_store = (Inr m, s)"
    and s: "s = example_logits_store @ [map (\<lambda>k. Fin (real k)) [0..<16], map (\<lambda>k. Fin (real k)) [0..<16]]"
    by (simp add: DFL_init_16)
  have sh: "shape example_logits = [1, 64, 1]"
    by (simp add: example_logits_def)
  have v: "valid s example_logits"
    unfolding s by (rule example_logits_valid)
  from DFL_forward_expected_bin [OF m prefix_order.refl sh v] m show ?thesis
    by auto
qed

subsection \<open>Determinism and frame\<close>



text \<open>
  C10. Whenever \<^verbatim>\<open>post_process\<close> returns, the second component of the pair is the list
  of tensors it was called with, and every storage that existed before the call is
  unchanged after it, so that every tensor of the list has the entries it had: no step of
  the decoding writes to them. It does return on every well-shaped raw output with tables
  of matching length.
\<close>

theorem post_process_returns_input:
  "(post_process e x s = (Inr (y, x'), s') \<longrightarrow>
      x' = x \<and> prefix s s'
      \<and> (\<forall>t \<in> set x. storage t < length s \<longrightarrow> (\<forall>idx. tget s' t idx = tget s t idx)))
   \<and> (files e ''./anchors.npy'' = Some af \<and> files e ''./strides.npy'' = Some sf
        \<and> raw_ok n s x \<and> table_ok 2 (slots x) af \<and> table_ok 1 (slots x) sf
        \<longrightarrow> (\<exists>y s'. post_process e x s = (Inr (y, x), s')))"
proof (intro conjI impI ballI allI)
  assume r: "post_process e x s = (Inr (y, x'), s')"
  show "x' = x"
    using yields_post_process [of x e] r by (auto simp: yields_def)
  show p: "prefix s s'"
    using extends_post_process r by (rule extendsD)
  fix t idx assume "t \<in> set x" "storage t < length s"
  then show "tget s' t idx = tget s t idx"
    using p by (simp add: tget_prefix)
next
  assume "files e ''./anchors.npy'' = Some af \<and> files e ''./strides.npy'' = Some sf
        \<and> raw_ok n s x \<and> table_ok 2 (slots x) af \<and> table_ok 1 (slots x) sf"
  then show "\<exists>y s'. post_process e x s = (Inr (y, x), s')"
    using post_process_ok [of e af sf n s x] by (auto simp: table_ok_def)
qed

theorem post_process_returns_input_witness:
  "\<exists>y s'. post_process example_env example_raw example_store = (Inr (y, example_raw), s')
      \<and> prefix example_store s'
      \<and> tget s' (hd example_raw) [0, 0, 0, 0] = tget example_store (hd example_raw) [0, 0, 0, 0]"
proof -
  have h: "files example_env ''./anchors.npy'' = Some example_anchors
      \<and> files example_env ''./strides.npy'' = Some example_strides
      \<and> raw_ok 1 example_store example_raw \<and> table_ok 2 (slots example_raw) example_anchors
      \<and> table_ok 1 (slots example_raw) example_strides"
    using example_files example_raw_ok example_tables by simp
  note T = post_process_returns_input [of example_env example_raw example_store _ _ _
      example_anchors example_strides 1]
  from T [THEN conjunct2, THEN mp, OF h]
  obtain y s' where p: "post_process example_env example_raw example_store = (Inr (y, example_raw), s')"
    by blast
  from T [of y example_raw s', THEN conjunct1, THEN mp, OF p]
  have "prefix example_store s'"
    and "\<forall>t \<in> set example_raw. storage t < length example_store
        \<longrightarrow> (\<forall>idx. tget s' t idx = tget example_store t idx)"
    by simp_all
  then show ?thesis
    using p by (auto simp: example_raw_def example_store_def)
qed

subsection \<open>Box assembler and score fusion\<close>

lemma round32_half [simp]: "round32 (1 / 2) = Fin (1 / 2)"
  using round32_over_pow2 [of 1 1] by simp

text \<open>
  The scenario of the specification: anchor \<open>(10, 10)\<close>, distances 2 and stride 32 give
  the centre \<open>(320, 320)\<close> and the size \<open>(128, 128)\<close>.
\<close>

lemma scenario_box:
  "map (\<lambda>v. fmul v (Fin 32)) (assemble_box True (Fin 10) (Fin 10) (Fin 2) (Fin 2) (Fin 2) (Fin 2))
    = [Fin 320, Fin 320, Fin 128, Fin 128]"
  by (simp add: assemble_box_def fsub_def)

lemma example_box_valid:
  "valid example_box_store example_distance" "valid example_box_store example_point"
  by (rule valid_contiguous; simp add: example_box_store_def example_distance_def example_point_def)+

text \<open>
  C2. \<^verbatim>\<open>dist2bbox\<close> computes the top-left corner as anchor minus (left, top) and the
  bottom-right corner as anchor plus (right, bottom); it returns centre (the average of the
  corners) and size (their difference) when \<open>xywh\<close> is requested and the two corners
  otherwise. \<^verbatim>\<open>post_process\<close> requests \<open>xywh\<close> and multiplies every coordinate by the
  stride of the slot. Each coordinate is a fixed function of the anchor, the four distances
  and the stride.
\<close>

theorem box_assembly:
  "(shape d = [b, 4, A] \<and> valid s d \<and> shape ap = [1, 2, A] \<and> valid s ap \<longrightarrow>
      (\<exists>y s'. dist2bbox d ap xywh 1 s = (Inr y, s') \<and> shape y = [b, 4, A]
         \<and> (\<forall>i<b. \<forall>c<4. \<forall>j<A. tget s' y [i, c, j]
               = assemble_box xywh (tget s ap [0, 0, j]) (tget s ap [0, 1, j])
                   (tget s d [i, 0, j]) (tget s d [i, 1, j]) (tget s d [i, 2, j])
                   (tget s d [i, 3, j]) ! c)))
   \<and> (files e ''./anchors.npy'' = Some af \<and> files e ''./strides.npy'' = Some sf
        \<and> raw_ok n s x \<and> table_ok 2 (slots x) af \<and> table_ok 1 (slots x) sf \<longrightarrow>
      (\<exists>y s'. post_process e x s = (Inr (y, x), s')
         \<and> (\<forall>i<n. \<forall>c<4. \<forall>j<slots x. tget s' y [i, c, j]
               = fmul (assemble_box True (aget af [0, j]) (aget af [1, j])
                         (decoded_distance s x i 0 j) (decoded_distance s x i 1 j)
                         (decoded_distance s x i 2 j) (decoded_distance s x i 3 j) ! c)
                      (aget sf [0, j]))))"
proof (intro conjI impI)
  assume h: "shape d = [b, 4, A] \<and> valid s d \<and> shape ap = [1, 2, A] \<and> valid s ap"
  then have "length (strides d) = 3" "storage d < length s" "storage ap < length s"
    by (simp_all add: valid_def)
  with h show "\<exists>y s'. dist2bbox d ap xywh 1 s = (Inr y, s') \<and> shape y = [b, 4, A]
         \<and> (\<forall>i<b. \<forall>c<4. \<forall>j<A. tget s' y [i, c, j]
               = assemble_box xywh (tget s ap [0, 0, j]) (tget s ap [0, 1, j])
                   (tget s d [i, 0, j]) (tget s d [i, 1, j]) (tget s d [i, 2, j])
                   (tget s d [i, 3, j]) ! c)"
    using dist2bbox_ok [of d b A s ap xywh] by blast
next
  assume h: "files e ''./anchors.npy'' = Some af \<and> files e ''./strides.npy'' = Some sf
        \<and> raw_ok n s x \<and> table_ok 2 (slots x) af \<and> table_ok 1 (slots x) sf"
  then obtain y s' where y: "post_process e x s = (Inr (y, x), s')"
    and e: "\<forall>i<n. \<forall>j<slots x. \<forall>c<4. tget s' y [i, c, j] = pixel_box af sf s x i j ! c"
    using post_process_ok [of e af sf n s x] by (auto simp: table_ok_def)
  have "tget s' y [i, c, j]
      = fmul (assemble_box True (aget af [0, j]) (aget af [1, j])
                (decoded_distance s x i 0 j) (decoded_distance s x i 1 j)
                (decoded_distance s x i 2 j) (decoded_distance s x i 3 j) ! c)
             (aget sf [0, j])" if "i < n" "c < 4" "j < slots x" for i c j
    using e that by (simp add: pixel_box_def)
  with y show "\<exists>y s'. post_process e x s = (Inr (y, x), s')
         \<and> (\<forall>i<n. \<forall>c<4. \<forall>j<slots x. tget s' y [i, c, j]
               = fmul (assemble_box True (aget af [0, j]) (aget af [1, j])
                         (decoded_distance s x i 0 j) (decoded_distance s x i 1 j)
                         (decoded_distance s x i 2 j) (decoded_distance s x i 3 j) ! c)
                      (aget sf [0, j]))"
    by blast
qed

theorem box_assembly_witness:
  "(\<exists>y s'. dist2bbox example_distance example_point True 1 example_box_store = (Inr y, s')
       \<and> map (\<lambda>c. tget s' y [0, c, 0]) [0, 1, 2, 3] = [Fin 10, Fin 10, Fin 4, Fin 4])
   \<and> (\<exists>y s'. dist2bbox example_distance example_point False 1 example_box_store = (Inr y, s')
       \<and> map (\<lambda>c. tget s' y [0, c, 0]) [0, 1, 2, 3] = [Fin 8, Fin 8, Fin 12, Fin 12])
   \<and> (\<exists>y s'. post_process example_env example_raw example_store = (Inr (y, example_raw), s')
       \<and> (\<forall>c<4. tget s' y [0, c, 0]
             = fmul (assemble_box True (Fin (1 / 2)) (Fin (1 / 2))
                       (decoded_distance example_store example_raw 0 0 0)
                       (decoded_distance example_store example_raw 0 1 0)
                       (decoded_distance example_store example_raw 0 2 0)
                       (decoded_distance example_store example_raw 0 3 0) ! c)
                    (Fin 8)))"
proof -
  have s: "shape example_distance = [1, 4, 1] \<and> valid example_box_store example_distance
      \<and> shape example_point = [1, 2, 1] \<and> valid example_box_store example_point"
    using example_box_valid by (simp add: example_distance_def example_point_def)
  have v: "tget example_box_store example_point [0, 0, 0] = Fin 10"
    "tget example_box_store example_point [0, 1, 0] = Fin 10"
    "tget example_box_store example_distance [0, 0, 0] = Fin 2"
    "tget example_box_store example_distance [0, 1, 0] = Fin 2"
    "tget example_box_store example_distance [0, 2, 0] = Fin 2"
    "tget example_box_store example_distance [0, 3, 0] = Fin 2"
    by (simp_all add: tget_def address_def example_box_store_def example_distance_def
        example_point_def)
  have h: "files example_env ''./anchors.npy'' = Some example_anchors
      \<and> files example_env ''./strides.npy'' = Some example_strides
      \<and> raw_ok 1 example_store example_raw \<and> table_ok 2 (slots example_raw) example_anchors
      \<and> table_ok 1 (slots example_raw) example_strides"
    using example_files example_raw_ok example_tables by simp
  have t: "aget example_anchors [0, 0] = Fin (1 / 2)" "aget example_anchors [1, 0] = Fin (1 / 2)"
    "aget example_strides [0, 0] = Fin 8"
    by (simp_all add: aget_def example_anchors_def example_strides_def)
  note T = box_assembly [of example_distance 1 1 example_box_store example_point]
  note T' = box_assembly [of _ _ _ example_store _ _ example_env example_anchors example_strides 1
      example_raw]
  have ab: "assemble_box True (Fin 10) (Fin 10) (Fin 2) (Fin 2) (Fin 2) (Fin 2)
      = [Fin 10, Fin 10, Fin 4, Fin 4]"
    and ab': "assemble_box False (Fin 10) (Fin 10) (Fin 2) (Fin 2) (Fin 2) (Fin 2)
      = [Fin 8, Fin 8, Fin 12, Fin 12]"
    by (simp_all add: assemble_box_def fsub_def)
  have a: "\<exists>y s'. dist2bbox example_distance example_point True 1 example_box_store = (Inr y, s')
       \<and> map (\<lambda>c. tget s' y [0, c, 0]) [0, 1, 2, 3] = [Fin 10, Fin 10,Fin 4, Fin 4]"
  proof -
    note T [of True, THEN conjunct1, THEN mp, OF s]
    then obtain y s' where y: "dist2bbox example_distance example_point True 1 example_box_store
          = (Inr y, s')"
      and e0: "\<forall>i<1. \<forall>c<4. \<forall>j<1. tget s' y [i, c, j]
          = assemble_box True (tget example_box_store example_point [0, 0, j])
              (tget example_box_store example_point [0, 1, j])
              (tget example_box_store example_distance [i, 0, j])
              (tget example_box_store example_distance [i, 1, j])
              (tget example_box_store example_distance [i, 2, j])
              (tget example_box_store example_distance [i, 3, j]) ! c"
      by (elim exE conjE)
    from e0 have e: "\<forall>c<4. tget s' y [0, c, 0] = [Fin 10, Fin 10, Fin 4, Fin 4] ! c"
      using v ab by simp
    from e have "tget s' y [0, 0, 0] = Fin 10" "tget s' y [0, 1, 0] = Fin 10"
      "tget s' y [0, 2, 0] = Fin 4" "tget s' y [0, 3, 0] = Fin 4"
      by simp_all
    with y show ?thesis by simp
  qed
  have b: "\<exists>y s'. dist2bbox example_distance example_point False 1 example_box_store = (Inr y, s')
       \<and> map (\<lambda>c. tget s' y [0, c, 0]) [0, 1, 2, 3] = [Fin 8, Fin 8, Fin 12, Fin 12]"
  proof -
    note T [of False, THEN conjunct1, THEN mp, OF s]
    then obtain y s' where y: "dist2bbox example_distance example_point False 1 example_box_store
          = (Inr y, s')"
      and e0: "\<forall>i<1. \<forall>c<4. \<forall>j<1. tget s' y [i, c, j]
          = assemble_box False (tget example_box_store example_point [0, 0, j])
              (tget example_box_store example_point [0, 1, j])
              (tget example_box_store example_distance [i, 0, j])
              (tget example_box_store example_distance [i, 1, j])
              (tget example_box_store example_distance [i, 2, j])
              (tget example_box_store example_distance [i, 3, j]) ! c"
      by (elim exE conjE)
    from e0 have e: "\<forall>c<4. tget s' y [0, c, 0] = [Fin 8, Fin 8, Fin 12, Fin 12] ! c"
      using v ab' by simp
    from e have "tget s' y [0, 0, 0] = Fin 8" "tget s' y [0, 1, 0] = Fin 8"
      "tget s' y [0, 2, 0] = Fin 12" "tget s' y [0, 3, 0] = Fin 12"
      by simp_all
    with y show ?thesis by simp
  qed
  have c: "\<exists>y s'. post_process example_env example_raw example_store = (Inr (y, example_raw), s')
       \<and> (\<forall>c<4. tget s' y [0, c, 0]
             = fmul (assemble_box True (Fin (1 / 2)) (Fin (1 / 2))
                       (decoded_distance example_store example_raw 0 0 0)
                       (decoded_distance example_store example_raw 0 1 0)
                       (decoded_distance example_store example_raw 0 2 0)
                       (decoded_distance example_store example_raw 0 3 0) ! c)
                    (Fin 8))"
  proof -
    note T' [THEN conjunct2, THEN mp, OF h]
    then obtain y s' where y: "post_process example_env example_raw example_store
          = (Inr (y, example_raw), s')"
      and e: "\<forall>i<1. \<forall>c<4. \<forall>j<slots example_raw. tget s' y [i, c, j]
               = fmul (assemble_box True (aget example_anchors [0, j]) (aget example_anchors [1, j])
                         (decoded_distance example_store example_raw i 0 j)
                         (decoded_distance example_store example_raw i 1 j)
                         (decoded_distance example_store example_raw i 2 j)
                         (decoded_distance example_store example_raw i 3 j) ! c)
                      (aget example_strides [0, j])"
      by (elim exE conjE)
    from e have "\<forall>c<4. tget s' y [0, c, 0]
             = fmul (assemble_box True (Fin (1 / 2)) (Fin (1 / 2))
                       (decoded_distance example_store example_raw 0 0 0)
                       (decoded_distance example_store example_raw 0 1 0)
                       (decoded_distance example_store example_raw 0 2 0)
                       (decoded_distance example_store example_raw 0 3 0) ! c)
                    (Fin 8)"
      using t by (simp add: example_slots)
    with y show ?thesis by blast
  qed
  from a b c show ?thesis by blast
qed

text \<open>
  C3. The fused tensor of \<^verbatim>\<open>post_process\<close> has, for every batch item and slot, the four
  box coordinates in pixels followed by eighty class probabilities, each the sigmoid of its
  own class logit.
\<close>

theorem post_process_fused_rows:
  assumes "files e ''./anchors.npy'' = Some af"
    and "files e ''./strides.npy'' = Some sf"
    and "raw_ok n s x"
    and "table_ok 2 (slots x) af"
    and "table_ok 1 (slots x) sf"
  shows "\<exists>y s'. post_process e x s = (Inr (y, x), s') \<and> shape y = [n, 84, slots x]
      \<and> valid s' y
      \<and> (\<forall>i<n. \<forall>j<slots x. fused_row s' y i j
            = pixel_box af sf s x i j
              @ map (\<lambda>c. sigmoid (raw_logit s x i (64 + c) j)) [0..<80])"
proof -
  have d: "dims af = [2, slots x]" "dims sf = [1, slots x]"
    using assms(4,5) by (simp_all add: table_ok_def)
  obtain y s' where y: "post_process e x s = (Inr (y, x), s')" "shape y = [n, 84, slots x]"
      "valid s' y"
    and e: "\<forall>i<n. \<forall>j<slots x.
            (\<forall>c<4. tget s' y [i, c, j] = pixel_box af sf s x i j ! c)
          \<and> (\<forall>c<80. tget s' y [i, 4 + c, j] = sigmoid (raw_logit s x i (64 + c) j))"
    using post_process_ok [OF assms(1,2,3) d] by blast
  have "fused_row s' y i j = pixel_box af sf s x i j
        @ map (\<lambda>c. sigmoid (raw_logit s x i (64 + c) j)) [0..<80]"
    if ij: "i < n" "j < slots x" for i j
  proof (rule nth_equalityI)
    show "length (fused_row s' y i j) = length (pixel_box af sf s x i j
        @ map (\<lambda>c. sigmoid (raw_logit s x i (64 + c) j)) [0..<80])"
      by (simp add: fused_row_def pixel_box_def)
  next
    fix c assume "c < length (fused_row s' y i j)"
    then have c: "c < 84" by (simp add: fused_row_def)
    show "fused_row s' y i j ! c = (pixel_box af sf s x i j
        @ map (\<lambda>c. sigmoid (raw_logit s x i (64 + c) j)) [0..<80]) ! c"
    proof (cases "c < 4")
      case True
      then show ?thesis
        using e ij c by (simp add: fused_row_def nth_append pixel_box_def)
    next
      case False
      then have c80: "c - 4 < 80" and c4: "4 + (c - 4) = c"
        using c by simp_all
      have "tget s' y [i, 4 + (c - 4), j] = sigmoid (raw_logit s x i (64 + (c - 4)) j)"
        using e ij c80 by blast
      then have "tget s' y [i, c, j] = sigmoid (raw_logit s x i (64 + (c - 4)) j)"
        by (simp only: c4)
      then show ?thesis
        using False c c80 by (simp add: fused_row_def nth_append pixel_box_def)
    qed
  qed
  with y show ?thesis by blast
qed

theorem post_process_fused_rows_witness:
  "\<exists>y s'. post_process example_env example_raw example_store = (Inr (y, example_raw), s')
      \<and> shape y = [1, 84, 1]
      \<and> fused_row s' y 0 0 = pixel_box example_anchors example_strides example_store example_raw 0 0
            @ replicate 80 (Fin (1 / 2))"
proof -
  have r: "raw_logit example_store example_raw 0 (64 + c) 0 = Fin 0" if "c < 80" for c
    using that by (simp add: example_raw_def example_store_def level_slots_def tget_def address_def)
  have "map (\<lambda>c. sigmoid (raw_logit example_store example_raw 0 (64 + c) 0)) [0..<80]
      = map (\<lambda>c. Fin (1 / 2)) [0..<80]"
    by (rule map_cong) (simp_all add: r sigmoid_def)
  then have m: "map (\<lambda>c. sigmoid (raw_logit example_store example_raw 0 (64 + c) 0)) [0..<80]
      = replicate 80 (Fin (1 / 2))"
    by (simp add: map_replicate_const)
  show ?thesis
    using post_process_fused_rows [OF example_files example_raw_ok example_tables]
    by (auto simp: m example_slots)
qed

section \<open>Special values and shape errors\<close>

lemma foldl_fadd_NaN [simp]: "foldl fadd NaN vs = NaN"
  by (induction vs) simp_all

lemma fadd_NaN_right [simp]: "fadd u NaN = NaN"
  by (cases u) simp_all

lemma fmul_NaN_right [simp]: "fmul u NaN = NaN"
  by (cases u) simp_all

lemma fdiv_NaN_right [simp]: "fdiv u NaN = NaN"
  by (cases u) simp_all

lemma fsub_NaN_left [simp]: "fsub NaN v = NaN"
  by (simp add: fsub_def)

lemma foldl_fadd_mem_NaN: "NaN \<in> set vs \<Longrightarrow> foldl fadd a vs = NaN"
  by (induction vs arbitrary: a) auto

lemma fsum_NaN: "NaN \<in> set vs \<Longrightarrow> fsum vs = NaN"
  by (simp add: fsum_def foldl_fadd_mem_NaN)

lemma expected_bin_NaN:
  assumes "k < n" and "X k = NaN"
  shows "expected_bin (map X [0..<n]) = NaN"
proof -
  define mx where "mx = fmaximum (map X [0..<n])"
  have "fexp (fsub (X k) mx) \<in> set (map (\<lambda>k'. fexp (fsub (X k') mx)) [0..<n])"
    using assms(1) by auto
  then have s: "fsum (map (\<lambda>k'. fexp (fsub (X k') mx)) [0..<n]) = NaN"
    using assms(2) by (intro fsum_NaN) simp
  have "0 < n" using assms(1) by simp
  then have "NaN \<in> set (map (\<lambda>k. NaN :: fval) [0..<n])"
    by auto
  then show ?thesis
    by (simp add: expected_bin_eq mx_def [symmetric] s fsum_NaN)
qed

lemma sigmoid_NaN [simp]: "sigmoid NaN = NaN"
  by (simp add: sigmoid_def)

lemma assemble_box_NaN:
  assumes "sd < 4" and "[l, t, r, b] ! sd = NaN"
  shows "assemble_box True ax ay l t r b ! (sd mod 2) = NaN"
    and "assemble_box True ax ay l t r b ! (2 + sd mod 2) = NaN"
proof -
  have "sd = 0 \<or> sd = 1 \<or> sd = 2 \<or> sd = 3" using assms(1) by auto
  then show "assemble_box True ax ay l t r b ! (sd mod 2) = NaN"
    and "assemble_box True ax ay l t r b ! (2 + sd mod 2) = NaN"
    using assms(2) by (auto simp: assemble_box_def Let_def fsub_def)
qed

lemma post_process_nan:
  assumes fa: "files e ''./anchors.npy'' = Some af"
    and fs: "files e ''./strides.npy'' = Some sf"
    and ok: "raw_ok n s x"
    and da: "dims af = [2, slots x]"
    and ds: "dims sf = [1, slots x]"
  shows "\<exists>y s'. post_process e x s = (Inr (y, x), s')
      \<and> (\<forall>i<n. \<forall>j<slots x.
           (\<forall>c<80. raw_logit s x i (64 + c) j = NaN \<longrightarrow> tget s' y [i, 4 + c, j] = NaN)
         \<and> (\<forall>sd<4. \<forall>k<16. raw_logit s x i (16 * sd + k) j = NaN \<longrightarrow>
               tget s' y [i, sd mod 2, j] = NaN \<and> tget s' y [i, 2 + sd mod 2, j] = NaN))"
proof -
  obtain y s' where y: "post_process e x s = (Inr (y, x), s')"
    and e: "\<forall>i<n. \<forall>j<slots x.
            (\<forall>c<4. tget s' y [i, c, j] = pixel_box af sf s x i j ! c)
          \<and> (\<forall>c<80. tget s' y [i, 4 + c, j] = sigmoid (raw_logit s x i (64 + c) j))"
    using post_process_ok [OF assms] by blast
  have cls: "tget s' y [i, 4 + c, j] = NaN"
    if "i < n" "j < slots x" "c < 80" "raw_logit s x i (64 + c) j = NaN" for i j c
    using e that by simp
  have box: "tget s' y [i, sd mod 2, j] = NaN \<and> tget s' y [i, 2 + sd mod 2, j] = NaN"
    if ij: "i < n" "j < slots x" and sd: "sd < 4" and k: "k < 16"
      and nan: "raw_logit s x i (16 * sd + k) j = NaN" for i j sd k
  proof -
    have d: "decoded_distance s x i sd j = NaN"
      unfolding decoded_distance_def using k nan by (rule expected_bin_NaN)
    have "sd = 0 \<or> sd = 1 \<or> sd = 2 \<or> sd = 3" using sd by auto
    then have "[decoded_distance s x i 0 j, decoded_distance s x i 1 j,
        decoded_distance s x i 2 j, decoded_distance s x i 3 j] ! sd = NaN"
      using d by auto
    note ab = assemble_box_NaN [OF sd this]
    have c: "sd mod 2 < 4" "2 + sd mod 2 < 4" by simp_all
    have "tget s' y [i, sd mod 2, j] = pixel_box af sf s x i j ! (sd mod 2)"
      and "tget s' y [i, 2 + sd mod 2, j] = pixel_box af sf s x i j ! (2 + sd mod 2)"
      using e ij c by blast+
    then show ?thesis
      using c ab by (simp add: pixel_box_def)
  qed
  from y cls box show ?thesis by blast
qed

lemma example_nan_ok: "raw_ok 1 example_store_nan example_raw"
  by (simp add: raw_ok_def example_raw_def example_store_nan_def rows_adjacent_def valid_contiguous)










text \<open>
  A level whose rows do not follow one another in the storage is refused by the view, with
  a \<^verbatim>\<open>RuntimeError\<close>.
\<close>

lemma sbind_torch_tensor:
  "sbind (torch_tensor a) f s
    = f (fresh (length s) (dims a)) (s @ [map (aget a) (indices (dims a))])"
  by (simp add: sbind_def torch_tensor_run)

lemma post_process_refuses_layout:
  "fst (post_process (table_env (zeros [2, 4]) (zeros [1, 4])) example_raw_transposed example_store4)
    = Inl RuntimeError"
proof -
  have i: "infer_size [1, 144, - 1] 576 = Inr [1, 144, 4]"
    using infer_size_last [of "[1, 144]" 576] by simp
  have "torch_view (hd example_raw_transposed) [1, 144, - 1] = Inl RuntimeError"
    by (simp add: torch_view_def numel_def example_raw_transposed_def i compute_stride_def)
  then have "emap (flatten_level example_raw_transposed) example_raw_transposed = Inl RuntimeError"
    by (simp add: flatten_level_def example_raw_transposed_def)
  then show ?thesis
    by (simp add: post_process_def sbind_DFL_init_16 np_load_def table_env_def sbind_torch_tensor)
qed

subsection \<open>Invalid configurations\<close>




subsection \<open>NaN and infinite logits\<close>

text \<open>
  A raw output whose first bin logit is NaN is decoded without any error, and the centre of
  the box of its slot is NaN.
\<close>

theorem nan_logit_counterexample:
  "NaN \<in> set (hd example_store_nan)
    \<and> tget example_store_nan (hd example_raw) [0, 0, 0, 0] = NaN
    \<and> (\<exists>y s'. post_process example_env example_raw example_store_nan = (Inr (y, example_raw), s')
          \<and> tget s' y [0, 0, 0] = NaN)"
proof -
  have r: "raw_logit example_store_nan example_raw 0 (16 * 0 + 0) 0 = NaN"
    by (simp add: example_store_nan_def example_raw_def level_slots_def tget_def address_def)
  have a: "dims example_anchors = [2, slots example_raw]"
    and s: "dims example_strides = [1, slots example_raw]"
    by (simp_all add: example_slots example_anchors_def example_strides_def)
  obtain y s' where y: "post_process example_env example_raw example_store_nan
        = (Inr (y, example_raw), s')"
    and e: "\<forall>i<1. \<forall>j<slots example_raw.
           (\<forall>c<80. raw_logit example_store_nan example_raw i (64 + c) j = NaN
               \<longrightarrow> tget s' y [i, 4 + c, j] = NaN)
         \<and> (\<forall>sd<4. \<forall>k<16. raw_logit example_store_nan example_raw i (16 * sd + k) j = NaN \<longrightarrow>
               tget s' y [i, sd mod 2, j] = NaN \<and> tget s' y [i, 2 + sd mod 2, j] = NaN)"
    using post_process_nan [OF example_files example_nan_ok a s]
    by (elim exE conjE)
  from e have e2: "\<forall>sd<4. \<forall>k<16. raw_logit example_store_nan example_raw 0 (16 * sd + k) 0 = NaN \<longrightarrow>
               tget s' y [0, sd mod 2, 0] = NaN \<and> tget s' y [0, 2 + sd mod 2, 0] = NaN"
    by (simp add: example_slots)
  from e2 [rule_format, of 0 0] r have "tget s' y [0, 0, 0] = NaN"
    by simp
  moreover have "NaN \<in> set (hd example_store_nan)"
    and "tget example_store_nan (hd example_raw) [0, 0, 0, 0] = NaN"
    by (simp_all add: example_store_nan_def example_raw_def tget_def address_def)
  ultimately show ?thesis
    using y by blast
qed

text \<open>
  C6, amended. \<^verbatim>\<open>post_process\<close> never tests a value: on every well-shaped input, whatever
  its entries, it returns the fused tensor and raises no error. A NaN class logit gives a NaN
  class probability, and a NaN bin logit of a side gives NaN for the two box coordinates
  that depend on that side.
\<close>

theorem post_process_no_finiteness_check:
  assumes "files e ''./anchors.npy'' = Some af"
    and "files e ''./strides.npy'' = Some sf"
    and "raw_ok n s x"
    and "table_ok 2 (slots x) af"
    and "table_ok 1 (slots x) sf"
  shows "\<exists>y s'. post_process e x s = (Inr (y, x), s')
      \<and> (\<forall>i<n. \<forall>j<slots x.
           (\<forall>c<80. raw_logit s x i (64 + c) j = NaN \<longrightarrow> tget s' y [i, 4 + c, j] = NaN)
         \<and> (\<forall>sd<4. \<forall>k<16. raw_logit s x i (16 * sd + k) j = NaN \<longrightarrow>
               tget s' y [i, sd mod 2, j] = NaN \<and> tget s' y [i, 2 + sd mod 2, j] = NaN))"
  using assms(1,2,3) by (rule post_process_nan) (use assms(4,5) in \<open>simp_all add: table_ok_def\<close>)

theorem post_process_no_finiteness_check_witness:
  "\<exists>y s'. post_process example_env example_raw example_store_nan = (Inr (y, example_raw), s')
      \<and> tget s' y [0, 0, 0] = NaN \<and> tget s' y [0, 2, 0] = NaN"
proof -
  have r: "raw_logit example_store_nan example_raw 0 (16 * 0 + 0) 0 = NaN"
    by (simp add: example_store_nan_def example_raw_def level_slots_def tget_def address_def)
  obtain y s' where y: "post_process example_env example_raw example_store_nan
        = (Inr (y, example_raw), s')"
    and e: "\<forall>i<1. \<forall>j<slots example_raw.
           (\<forall>c<80. raw_logit example_store_nan example_raw i (64 + c) j = NaN
               \<longrightarrow> tget s' y [i, 4 + c, j] = NaN)
         \<and> (\<forall>sd<4. \<forall>k<16. raw_logit example_store_nan example_raw i (16 * sd + k) j = NaN \<longrightarrow>
               tget s' y [i, sd mod 2, j] = NaN \<and> tget s' y [i, 2 + sd mod 2, j] = NaN)"
    using post_process_no_finiteness_check [OF example_files example_nan_ok example_tables]
    by (elim exE conjE)
  from e have e2: "\<forall>sd<4. \<forall>k<16. raw_logit example_store_nan example_raw 0 (16 * sd + k) 0 = NaN \<longrightarrow>
               tget s' y [0, sd mod 2, 0] = NaN \<and> tget s' y [0, 2 + sd mod 2, 0] = NaN"
    by (simp add: example_slots)
  from e2 [rule_format, of 0 0] r have "tget s' y [0, 0, 0] = NaN \<and> tget s' y [0, 2, 0] = NaN"
    by simp
  with y show ?thesis by blast
qed

section \<open>Rounding in the decoder\<close>

lemma exp_neg_tiny:
  fixes x :: real
  assumes "x \<le> - 151"
  shows "exp x < 1 / 2 ^ 150"
proof -
  have "(2::real) \<le> exp 1"
    using exp_ge_add_one_self [of "1::real"] by simp
  then have "(2::real) ^ 151 \<le> exp 1 ^ 151"
    by (intro power_mono) simp_all
  also have "\<dots> = exp (of_nat 151 * 1)"
    by (rule exp_of_nat_mult [symmetric])
  also have "\<dots> = exp 151" by simp
  finally have "(2::real) ^ 150 < exp 151" by simp
  then have l: "1 / exp 151 < 1 / (2::real) ^ 150"
    by (intro divide_strict_left_mono) simp_all
  have "exp x \<le> exp (- 151 :: real)" using assms by simp
  also have "\<dots> = 1 / exp (151::real)"
    by (simp add: exp_minus inverse_eq_divide)
  also note l
  finally show ?thesis .
qed

lemma fexp_underflow: "x \<le> - 151 \<Longrightarrow> fexp (Fin x) = Fin 0"
  using exp_neg_tiny [of x] by (simp add: round32_tiny)

lemma round32_pow40: "round32 (2 ^ 40) = Fin (2 ^ 40)"
  using round32_dyadic [of 1 40] by simp

lemma round32_near_pow40: "round32 (2 ^ 40 - 1000) = Fin (2 ^ 40)"
proof -
  define x :: real where "x = 2 ^ 40 - 1000"
  have b: "binade x = 39"
    by (rule binade_eq) (simp_all add: x_def)
  have u: "ulp32 x = 2 ^ 16"
    by (simp add: ulp32_def b)
  have "round_even (x / ulp32 x) = 2 ^ 24"
    by (rule round_even_eq) (simp only: u, simp add: x_def)
  then have "of_int (round_even (x / ulp32 x)) * ulp32 x = 2 ^ 40"
    by (simp add: u)
  moreover have "x \<noteq> 0" by (simp add: x_def)
  ultimately have "round32 x = Fin (2 ^ 40)"
    by (simp add: round32_def Let_def)
  then show ?thesis by (simp add: x_def)
qed

lemma foldl_fadd_sixteenths:
  "a + sum_list ks < 2 ^ 24 \<Longrightarrow>
   foldl fadd (Fin (real a / 16)) (map (\<lambda>k. Fin (real k / 16)) ks)
    = Fin (real (a + sum_list ks) / 16)"
proof (induction ks arbitrary: a)
  case Nil
  then show ?case by simp
next
  case (Cons k ks)
  have "\<bar>int (a + k)\<bar> < 2 ^ 24" using Cons.prems by simp
  then have "round32 (of_int (int (a + k)) / 2 ^ 4) = Fin (of_int (int (a + k)) / 2 ^ 4)"
    by (intro round32_over_pow2) simp_all
  then have "fadd (Fin (real a / 16)) (Fin (real k / 16)) = Fin (real (a + k) / 16)"
    by (simp add: add_divide_distrib)
  then show ?case
    using Cons.IH [of "a + k"] Cons.prems by (simp add: add.assoc)
qed

lemma expected_bin_uniform: "expected_bin (replicate 16 (Fin c)) = Fin (15 / 2)"
proof -
  have mx: "fmaximum (replicate 16 (Fin c)) = Fin c"
    by (simp add: fmaximum_def eval_nat_numeral)
  have e: "fexp (fsub (Fin c) (Fin c)) = Fin 1"
    by (simp add: fsub_def)
  have s: "fsum (replicate 16 (Fin 1)) = Fin 16"
    by (simp add: fsum_def eval_nat_numeral)
  have r16: "round32 (1 / 16) = Fin (1 / 16)"
    using round32_over_pow2 [of 1 4, simplified] .
  have sm: "softmax_list (replicate 16 (Fin c)) = replicate 16 (Fin (1 / 16))"
    by (simp add: softmax_list_def Let_def mx e s r16 map_replicate_const)
  have t: "round32 (real k / 16) = Fin (real k / 16)" if "k < 16" for k
    using round32_over_pow2 [of "int k" 4] that by simp
  have "map2 fmul (map (\<lambda>k. Fin (real k)) [0..<16]) (replicate 16 (Fin (1 / 16)))
      = map (\<lambda>k. fmul (Fin (real k)) (Fin (1 / 16))) [0..<16]"
    by (rule nth_equalityI) simp_all
  also have "\<dots> = map (\<lambda>k. Fin (real k / 16)) [0..<16]"
    by (rule map_cong) (simp_all add: t)
  finally have z: "map2 fmul (map (\<lambda>k. Fin (real k)) [0..<16]) (replicate 16 (Fin (1 / 16)))
      = map (\<lambda>k. Fin (real k / 16)) [0..<16]" .
  have sl: "sum_list [0..<16] = 120"
    by (simp add: upt_rec)
  have "fsum (map (\<lambda>k. Fin (real k / 16)) [0..<16]) = Fin (real (0 + sum_list [0..<16]) / 16)"
    unfolding fsum_def using foldl_fadd_sixteenths [of 0 "[0..<16]"] by (simp add: sl)
  then show ?thesis
    by (simp add: expected_bin_def dot_def sm z sl)
qed

lemma expected_bin_peak: "expected_bin (Fin 0 # replicate 15 (Fin (- 1000))) = Fin 0"
proof -
  have mx: "fmaximum (Fin 0 # replicate 15 (Fin (- 1000))) = Fin 0"
    by (simp add: fmaximum_def eval_nat_numeral)
  have e0: "fexp (fsub (Fin 0) (Fin 0)) = Fin 1"
    by (simp add: fsub_def)
  have e1: "fexp (fsub (Fin (- 1000)) (Fin 0)) = Fin 0"
    by (simp add: fsub_def fexp_underflow del: fexp.simps)
  have s: "fsum (Fin 1 # replicate 15 (Fin 0)) = Fin 1"
    by (simp add: fsum_def eval_nat_numeral)
  have sm: "softmax_list (Fin 0 # replicate 15 (Fin (- 1000))) = Fin 1 # replicate 15 (Fin 0)"
    by (simp add: softmax_list_def Let_def mx e0 e1 s map_replicate_const del: fexp.simps)
  show ?thesis
    unfolding expected_bin_def dot_def sm
    by (simp add: fsum_def upt_rec eval_nat_numeral)
qed

section \<open>Shift of the bin logits\<close>

lemma shifted_fadd: "exact_add v c \<Longrightarrow> shifted c v (fadd v (Fin c))"
  by (simp add: exact_add_def)

lemma fmax_shifted:
  "shifted c u u' \<Longrightarrow> shifted c v v' \<Longrightarrow> shifted c (fmax u v) (fmax u' v')"
  by (cases u; cases v) (auto simp: shifted_def max_def)

lemma foldl_fmax_shifted:
  "list_all2 (shifted c) vs vs' \<Longrightarrow> shifted c a a'
    \<Longrightarrow> shifted c (foldl fmax a vs) (foldl fmax a' vs')"
  by (induction vs vs' arbitrary: a a' rule: list_all2_induct) (simp_all add: fmax_shifted)

lemma fmaximum_shifted:
  "list_all2 (shifted c) vs vs' \<Longrightarrow> shifted c (fmaximum vs) (fmaximum vs')"
  unfolding fmaximum_def by (rule foldl_fmax_shifted) (simp_all add: shifted_def)

lemma fsub_shifted:
  "shifted c u u' \<Longrightarrow> shifted c m m' \<Longrightarrow> fsub u' m' = fsub u m"
  by (cases u; cases m) (auto simp: shifted_def fsub_def)

lemma softmax_list_shifted:
  assumes "list_all2 (shifted c) vs vs'"
  shows "softmax_list vs' = softmax_list vs"
proof -
  note m = fmaximum_shifted [OF assms]
  have l: "length vs' = length vs"
    using assms by (simp add: list_all2_lengthD)
  have e: "fsub (vs' ! k) (fmaximum vs') = fsub (vs ! k) (fmaximum vs)" if "k < length vs" for k
    using assms that m by (intro fsub_shifted) (auto simp: list_all2_conv_all_nth)
  have 1: "map (\<lambda>w. fexp (fsub w (fmaximum vs'))) vs' = map (\<lambda>w. fexp (fsub w (fmaximum vs))) vs"
    by (rule nth_equalityI) (simp_all add: l e)
  show ?thesis
    unfolding softmax_list_def Let_def 1
    by (rule nth_equalityI) (simp_all add: l e)
qed

lemma expected_bin_shifted:
  assumes "list_all2 (shifted c) vs vs'"
  shows "expected_bin vs' = expected_bin vs"
  using softmax_list_shifted [OF assms] list_all2_lengthD [OF assms]
  by (simp add: expected_bin_def)

lemma shift_bins_run:
  "shift_bins x i sd j c s
    = (Inr (fresh (length s) (shape x)),
       s @ [map (\<lambda>idx. if idx ! 0 = i \<and> idx ! 1 div 16 = sd \<and> idx ! 2 = j
                        then fadd (tget s x idx) (Fin c) else tget s x idx) (indices (shape x))])"
  by (simp add: shift_bins_def new_tensor_run)

lemma bin_logits_shift:
  assumes sh: "shape x = [b, 64, a]" and v: "i' < b" "sd' < 4" "j' < a"
    and r: "shift_bins x i sd j c s = (Inr x', sx)"
  shows "bin_logits sx x' i' sd' j'
      = (if i' = i \<and> sd' = sd \<and> j' = j then map (\<lambda>v. fadd v (Fin c)) (bin_logits s x i' sd' j')
         else bin_logits s x i' sd' j')"
proof -
  define f where "f = (\<lambda>idx. if idx ! 0 = i \<and> idx ! 1 div 16 = sd \<and> idx ! 2 = j
                        then fadd (tget s x idx) (Fin c) else tget s x idx)"
  from r have x': "x' = fresh (length s) [b, 64, a]" and sx: "sx = s @ [map f (indices [b, 64, a])]"
    by (simp_all add: shift_bins_run sh f_def)
  have e: "tget sx x' [i', 16 * sd' + k, j']
      = (if i' = i \<and> sd' = sd \<and> j' = j then fadd (tget s x [i', 16 * sd' + k, j']) (Fin c)
         else tget s x [i', 16 * sd' + k, j'])" if "k < 16" for k
  proof -
    have "tget sx x' [i', 16 * sd' + k, j'] = f [i', 16 * sd' + k, j']"
      unfolding sx x' using that v by (intro tget_fresh1) (simp add: valid_index3)
    then show ?thesis
      using that by (simp add: f_def)
  qed
  show ?thesis
  proof (cases "i' = i \<and> sd' = sd \<and> j' = j")
    case True
    have "map (\<lambda>k. tget sx x' [i', 16 * sd' + k, j']) [0..<16]
        = map (\<lambda>k. fadd (tget s x [i', 16 * sd' + k, j']) (Fin c)) [0..<16]"
    proof (rule map_cong [OF refl])
      fix k assume "k \<in> set [0..<16]"
      then have "k < 16" by simp
      from e [OF this] True
      show "tget sx x' [i', 16 * sd' + k, j'] = fadd (tget s x [i', 16 * sd' + k, j']) (Fin c)"
        by simp
    qed
    then have "bin_logits sx x' i' sd' j' = map (\<lambda>v. fadd v (Fin c)) (bin_logits s x i' sd' j')"
      unfolding bin_logits_def by (simp only: map_map comp_def)
    with True show ?thesis by simp
  next
    case False
    have "map (\<lambda>k. tget sx x' [i', 16 * sd' + k, j']) [0..<16]
        = map (\<lambda>k. tget s x [i', 16 * sd' + k, j']) [0..<16]"
    proof (rule map_cong [OF refl])
      fix k assume "k \<in> set [0..<16]"
      then have "k < 16" by simp
      from e [OF this] False
      show "tget sx x' [i', 16 * sd' + k, j'] = tget s x [i', 16 * sd' + k, j']"
        by simp
    qed
    then have "bin_logits sx x' i' sd' j' = bin_logits s x i' sd' j'"
      unfolding bin_logits_def .
    with False show ?thesis by auto
  qed
qed

text \<open>
  C7, amended. Adding a constant \<open>c\<close> to all sixteen bin logits of one side of one anchor
  leaves the output of \<^verbatim>\<open>DFL.forward\<close> unchanged whenever the sixteen additions are
  exact, that is, whenever each shifted logit is the real sum and not a rounding of it.
\<close>

theorem DFL_forward_shift_exact:
  assumes m: "DFL_init w0 16 s0 = (Inr m, s1)" and p: "prefix s1 s"
    and sh: "shape x = [b, 64, a]" and v: "valid s x" and b: "0 < b" and a: "0 < a"
    and ex: "\<forall>k<16. exact_add (tget s x [i, 16 * sd + k, j]) c"
  shows "\<exists>x' sx y s' y' s''. shift_bins x i sd j c s = (Inr x', sx)
      \<and> DFL_forward m x s = (Inr y, s') \<and> DFL_forward m x' sx = (Inr y', s'')
      \<and> shape y' = shape y
      \<and> (\<forall>i'<b. \<forall>sd'<4. \<forall>j'<a. tget s'' y' [i', sd', j'] = tget s' y [i', sd', j'])"
proof -
  obtain x' sx where r: "shift_bins x i sd j c s = (Inr x', sx)"
    and x': "x' = fresh (length s) [b, 64, a]" and sx: "prefix s sx"
    by (simp add: shift_bins_run sh)
  have l: "length (strides x) = 3" "length (strides x') = 3"
    using v sh by (simp_all add: valid_def x')
  note w = DFL_weight [OF m p]
  note w' = DFL_weight [OF m prefix_order.trans [OF p sx]]
  obtain y s' where y: "DFL_forward m x s = (Inr y, s')" "shape y = [b, 4, a]"
    and ey: "\<forall>i<b. \<forall>sd<4. \<forall>j<a. tget s' y [i, sd, j] = expected_bin (bin_logits s x i sd j)"
    using DFL_forward_ok [OF w(1,2,4,3) sh l(1) b a] by blast
  have sh': "shape x' = [b, 64, a]" by (simp add: x')
  obtain y' s'' where y': "DFL_forward m x' sx = (Inr y', s'')" "shape y' = [b, 4, a]"
    and ey': "\<forall>i<b. \<forall>sd<4. \<forall>j<a. tget s'' y' [i, sd, j] = expected_bin (bin_logits sx x' i sd j)"
    using DFL_forward_ok [OF w'(1,2,4,3) sh' l(2) b a] by blast
  have "tget s'' y' [i', sd', j'] = tget s' y [i', sd', j']"
    if t: "i' < b" "sd' < 4" "j' < a" for i' sd' j'
  proof -
    have "expected_bin (bin_logits sx x' i' sd' j') = expected_bin (bin_logits s x i' sd' j')"
    proof (cases "i' = i \<and> sd' = sd \<and> j' = j")
      case True
      have "list_all2 (shifted c) (bin_logits s x i sd j)
          (map (\<lambda>v. fadd v (Fin c)) (bin_logits s x i sd j))"
        using ex by (simp add: list_all2_conv_all_nth bin_logits_def shifted_fadd)
      then show ?thesis
        using bin_logits_shift [OF sh t r] True by (simp add: expected_bin_shifted)
    next
      case False
      then show ?thesis
        using bin_logits_shift [OF sh t r] by auto
    qed
    then show ?thesis
      using ey ey' t by simp
  qed
  with r y y' show ?thesis by auto
qed

lemma example_peak_valid: "valid (example_peak_store @ bs) example_logits"
  by (rule valid_contiguous) (simp_all add: example_logits_def example_peak_store_def)

lemma example_peak_bins:
  "bin_logits (example_peak_store @ bs) example_logits 0 0 0 = Fin 0 # replicate 15 (Fin (- 1000))"
proof (rule nth_equalityI)
  show "length (bin_logits (example_peak_store @ bs) example_logits 0 0 0)
      = length (Fin 0 # replicate 15 (Fin (- 1000)))"
    by (simp add: bin_logits_def)
next
  fix k assume "k < length (bin_logits (example_peak_store @ bs) example_logits 0 0 0)"
  then have k: "k < 16" by (simp add: bin_logits_def)
  then show "bin_logits (example_peak_store @ bs) example_logits 0 0 0 ! k
      = (Fin 0 # replicate 15 (Fin (- 1000))) ! k"
    by (cases k)
       (simp_all add: bin_logits_def tget_def address_def example_logits_def example_peak_store_def)
qed

text \<open>
  With bin 0 at logit 0 and the other bins at \<open>-1000\<close> the decoded distance is 0; after
  \<open>2 ^ 40\<close> is added to the sixteen logits they are all \<open>2 ^ 40\<close> in the 32-bit format,
  and the decoded distance is 7.5.
\<close>

theorem shift_rounding_counterexample:
  "\<exists>m s x' sx y s' y' s''.
      DFL_init (\<lambda>k. Fin 0) 16 example_peak_store = (Inr m, s)
    \<and> shift_bins example_logits 0 0 0 (2 ^ 40) s = (Inr x', sx)
    \<and> DFL_forward m example_logits s = (Inr y, s') \<and> DFL_forward m x' sx = (Inr y', s'')
    \<and> tget s' y [0, 0, 0] = Fin 0 \<and> tget s'' y' [0, 0, 0] = Fin (15 / 2)"
proof -
  obtain m s where m: "DFL_init (\<lambda>k. Fin 0) 16 example_peak_store = (Inr m, s)"
    and s: "s = example_peak_store @ [map (\<lambda>k. Fin (real k)) [0..<16], map (\<lambda>k. Fin (real k)) [0..<16]]"
    by (simp add: DFL_init_16)
  have sh: "shape example_logits = [1, 64, 1]"
    by (simp add: example_logits_def)
  have l: "length (strides example_logits) = 3"
    by (simp add: example_logits_def)
  obtain x' sx where r: "shift_bins example_logits 0 0 0 (2 ^ 40) s = (Inr x', sx)"
    and x': "x' = fresh (length s) [1, 64, 1]" and sx: "prefix s sx"
    by (simp add: shift_bins_run sh)
  note w = DFL_weight [OF m prefix_order.refl]
  note w' = DFL_weight [OF m sx]
  obtain y s' where y: "DFL_forward m example_logits s = (Inr y, s')"
    and ey: "\<forall>i<1. \<forall>sd<4. \<forall>j<1. tget s' y [i, sd, j]
        = expected_bin (bin_logits s example_logits i sd j)"
    using DFL_forward_ok [OF w(1,2,4,3) sh l] by auto
  have sh': "shape x' = [1, 64, 1]" and l': "length (strides x') = 3"
    by (simp_all add: x')
  obtain y' s'' where y': "DFL_forward m x' sx = (Inr y', s'')"
    and ey': "\<forall>i<1. \<forall>sd<4. \<forall>j<1. tget s'' y' [i, sd, j] = expected_bin (bin_logits sx x' i sd j)"
    using DFL_forward_ok [OF w'(1,2,4,3) sh' l'] by auto
  have b0: "bin_logits s example_logits 0 0 0 = Fin 0 # replicate 15 (Fin (- 1000))"
    unfolding s by (rule example_peak_bins)
  have a0: "fadd (Fin 0) (Fin (2 ^ 40)) = Fin (2 ^ 40)"
    using round32_pow40 by simp
  have a1: "fadd (Fin (- 1000)) (Fin (2 ^ 40)) = Fin (2 ^ 40)"
    using round32_near_pow40 by simp
  have "bin_logits sx x' 0 0 0
      = map (\<lambda>v. fadd v (Fin (2 ^ 40))) (bin_logits s example_logits 0 0 0)"
    using bin_logits_shift [OF sh _ _ _ r, of 0 0 0] by simp
  also have "\<dots> = Fin (2 ^ 40) # replicate 15 (Fin (2 ^ 40))"
    unfolding b0 list.map map_replicate a0 a1 ..
  also have "\<dots> = replicate 16 (Fin (2 ^ 40))"
    by (simp add: eval_nat_numeral)
  finally have b1: "bin_logits sx x' 0 0 0 = replicate 16 (Fin (2 ^ 40))" .
  have "tget s' y [0, 0, 0] = Fin 0"
    using ey by (simp add: b0 expected_bin_peak)
  moreover have "tget s'' y' [0, 0, 0] = Fin (15 / 2)"
    using ey' by (simp add: b1 expected_bin_uniform)
  ultimately show ?thesis
    using m r y y' by blast
qed

theorem DFL_forward_shift_exact_witness:
  "\<exists>m s x' sx y s' y' s''.
      DFL_init (\<lambda>k. Fin 0) 16 example_logits_store = (Inr m, s)
    \<and> shift_bins example_logits 0 0 0 3 s = (Inr x', sx)
    \<and> tget s example_logits [0, 0, 0] = Fin 0 \<and> tget sx x' [0, 0, 0] = Fin 3
    \<and> DFL_forward m example_logits s = (Inr y, s') \<and> DFL_forward m x' sx = (Inr y', s'')
    \<and> (\<forall>sd<4. tget s'' y' [0, sd, 0] = tget s' y [0, sd, 0])"
proof -
  obtain m s where m: "DFL_init (\<lambda>k. Fin 0) 16 example_logits_store = (Inr m, s)"
    and s: "s = example_logits_store @ [map (\<lambda>k. Fin (real k)) [0..<16], map (\<lambda>k. Fin (real k)) [0..<16]]"
    by (simp add: DFL_init_16)
  have sh: "shape example_logits = [1, 64, 1]"
    by (simp add: example_logits_def)
  have v: "valid s example_logits"
    unfolding s by (rule example_logits_valid)
  have g: "tget s example_logits [0, k, 0] = Fin 0" if "k < 16" for k
    using that by (simp add: s tget_def address_def example_logits_def example_logits_store_def)
  have ex: "\<forall>k<16. exact_add (tget s example_logits [0, 16 * 0 + k, 0]) 3"
    by (simp add: g exact_add_def shifted_def)
  from DFL_forward_shift_exact [OF m prefix_order.refl sh v _ _ ex]
  obtain x' sx y s' y' s'' where r: "shift_bins example_logits 0 0 0 3 s = (Inr x', sx)"
    and f: "DFL_forward m example_logits s = (Inr y, s')" "DFL_forward m x' sx = (Inr y', s'')"
    and e: "\<forall>i'<1. \<forall>sd'<4. \<forall>j'<1. tget s'' y' [i', sd', j'] = tget s' y [i', sd', j']"
    by auto
  have "tget sx x' [0, 0, 0] = fadd (tget s example_logits [0, 0, 0]) (Fin 3)"
    using r by (auto simp: shift_bins_run sh tget_fresh1 valid_index3)
  then have "tget sx x' [0, 0, 0] = Fin 3"
    using g [of 0] by simp
  with m r f e g [of 0] show ?thesis
    by auto
qed

section \<open>Properties of the detection filter\<close>

lemma select_Nil [simp]: "select cfg n [] = []"
  by (cases n) simp_all

lemma select_Cons:
  "0 < n \<Longrightarrow> select cfg n (d # ds)
      = d # select cfg (n - 1) (filter (\<lambda>d'. \<not> suppresses cfg d d') ds)"
  by (cases n) simp_all

lemma length_select_le: "length (select cfg n ds) \<le> n"
  by (induction cfg n ds rule: select.induct) simp_all

lemma set_select: "set (select cfg n ds) \<subseteq> set ds"
  by (induction cfg n ds rule: select.induct) auto

lemma length_select_le_length: "length (select cfg n ds) \<le> length ds"
proof (induction cfg n ds rule: select.induct)
  case (3 cfg n d ds)
  have "length (select cfg n (filter (\<lambda>d'. \<not> suppresses cfg d d') ds))
      \<le> length (filter (\<lambda>d'. \<not> suppresses cfg d d') ds)"
    by (rule "3.IH")
  also have "\<dots> \<le> length ds" by simp
  finally show ?case by simp
qed simp_all

lemma sorted_wrt_select:
  "sorted_wrt P ds \<Longrightarrow> sorted_wrt P (select cfg n ds)"
proof (induction cfg n ds rule: select.induct)
  case (3 cfg n d ds)
  let ?rest = "filter (\<lambda>d'. \<not> suppresses cfg d d') ds"
  from "3.prems" have head: "\<forall>x \<in> set ds. P d x" and tail: "sorted_wrt P ds"
    by simp_all
  have "sorted_wrt P ?rest"
    using tail by (rule sorted_wrt_filter)
  then have "sorted_wrt P (select cfg n ?rest)"
    by (rule "3.IH")
  moreover have "\<forall>x \<in> set (select cfg n ?rest). P d x"
    using head set_select [of cfg n ?rest] by auto
  ultimately show ?case by simp
qed simp_all

lemma length_candidates: "length (candidates rows) \<le> length rows"
proof -
  have "length (candidates rows)
      = length (filter (\<lambda>x. candidate x \<noteq> None) (enumerate 0 rows))"
    by (simp add: candidates_def List.map_filter_def)
  also have "\<dots> \<le> length (enumerate 0 rows)"
    by (rule length_filter_le)
  finally show ?thesis by simp
qed

lemma sorted_by_confidence:
  "sorted_wrt (\<lambda>a b. det_conf b \<le> det_conf a) (sort_key (\<lambda>d. - det_conf d) ds)"
proof -
  have "sorted (map (\<lambda>d. - det_conf d) (sort_key (\<lambda>d. - det_conf d) ds))"
    by (rule sorted_sort_key)
  then show ?thesis
    by (simp add: sorted_map)
qed

lemma nms_result:
  assumes "0 < max_det cfg"
  shows "\<exists>dets. non_max_suppression cfg rows = Inr dets
      \<and> sorted_wrt (\<lambda>a b. det_conf b \<le> det_conf a) dets
      \<and> int (length dets) \<le> max_det cfg \<and> length dets \<le> length rows"
proof -
  define kept where "kept = filter (\<lambda>d. \<not> det_conf d < conf_thres cfg) (candidates rows)"
  define allowed where "allowed = (case classes cfg of None \<Rightarrow> kept
      | Some cs \<Rightarrow> filter (\<lambda>d. det_class d \<in> set cs) kept)"
  define ordered where "ordered = sort_key (\<lambda>d. - det_conf d) allowed"
  define dets where "dets = select cfg (nat (max_det cfg)) ordered"
  have r: "non_max_suppression cfg rows = Inr dets"
    using assms
    by (simp add: non_max_suppression_def Let_def dets_def ordered_def allowed_def kept_def
          split: option.split)
  have "length kept \<le> length (candidates rows)"
    by (simp add: kept_def)
  then have "length kept \<le> length rows"
    using length_candidates [of rows] by simp
  moreover have "length allowed \<le> length kept"
    by (simp add: allowed_def split: option.split)
  ultimately have "length ordered \<le> length rows"
    by (simp add: ordered_def)
  then have l: "length dets \<le> length rows"
    using length_select_le_length [of cfg "nat (max_det cfg)" ordered] by (simp add: dets_def)
  have "length dets \<le> nat (max_det cfg)"
    unfolding dets_def by (rule length_select_le)
  then have m: "int (length dets) \<le> max_det cfg"
    using assms by simp
  have s: "sorted_wrt (\<lambda>a b. det_conf b \<le> det_conf a) dets"
    unfolding dets_def ordered_def by (intro sorted_wrt_select sorted_by_confidence)
  from r s m l show ?thesis by blast
qed

lemma nms_rejects_nonpositive_maximum:
  "max_det cfg \<le> 0 \<Longrightarrow> non_max_suppression cfg rows = Inl InvalidConfiguration"
  by (simp add: non_max_suppression_def)

lemma nms_example:
  "map det_id (projr (non_max_suppression inference_config example_rows)) = [1]"
  by (simp add: non_max_suppression_def inference_config_def example_rows_def candidates_def
      List.map_filter_def enumerate_eq_zip candidate_def best_class_def upt_rec suppresses_def iou_def
      overlap_1d_def Let_def select_Cons)

text \<open>
  C4. With a positive maximum, the detection filter returns a sequence of detections in
  order of non-increasing confidence, whose length is at most the maximum and at most the
  number of input rows.
\<close>

theorem nms_sorted_bounded:
  assumes "0 < max_det cfg"
  shows "\<exists>dets. non_max_suppression cfg rows = Inr dets
      \<and> sorted_wrt (\<lambda>a b. det_conf b \<le> det_conf a) dets
      \<and> int (length dets) \<le> max_det cfg \<and> length dets \<le> length rows"
  using assms by (rule nms_result)

theorem nms_sorted_bounded_witness:
  "\<exists>dets. non_max_suppression inference_config example_rows = Inr dets
      \<and> sorted_wrt (\<lambda>a b. det_conf b \<le> det_conf a) dets
      \<and> int (length dets) \<le> 300 \<and> length dets \<le> 3"
proof -
  have "0 < max_det inference_config"
    by (simp add: inference_config_def)
  moreover have "max_det inference_config = 300" and "length example_rows = 3"
    by (simp_all add: inference_config_def example_rows_def)
  ultimately show ?thesis
    using nms_sorted_bounded [of inference_config example_rows] by simp
qed


end
